theory Spec2Isabelle
  imports Complex_Main "HOL-Library.Word"
begin

section \<open>Values of the JavaScript runtime\<close>

text \<open>
  A \<open>Buffer\<close> is a list of bytes. A JavaScript number is a finite value, \<open>NaN\<close> or an
  infinity; the code only compares numbers, takes \<open>Math.floor\<close> and multiplies a digit
  string by a unit, so finite numbers are kept as exact rationals (every finite double is
  one). The values that reach the size parameter are \<open>undefined\<close>, \<open>null\<close>, a number
  or a string, as the JSDoc of \<open>splitSync\<close> (\<open>number|string\<close>) has it.
\<close>

type_synonym byte = "8 word"
type_synonym buffer = "byte list"

datatype jsnum = Fin rat | NaN | PosInf | NegInf

datatype jsval = JUndefined | JNull | JNum jsnum | JStr string

datatype error =
    TypeError string
  | RangeError string
  | Error string
  | AssertionError string

text \<open>
  A call returns a value, throws, or does not return at all (the loop of \<open>splitByBytes\<close>
  with size 0 pushes empty slices for ever).
\<close>

datatype 'a outcome = Returns 'a | Throws error | Diverges

text \<open>
  What the code calls but the repository does not define is a parameter: the language's
  conversion of a string to a number, the SHA-256 of \<open>node:crypto\<close>, the largest
  length \<open>Buffer.alloc\<close> accepts, the bytes \<open>getRandomValues\<close> writes (byte \<open>j\<close> of
  its \<open>k\<close>-th call) and \<open>Buffer.prototype.toString\<close>.
\<close>

record runtime =
  StringToNumber :: "string \<Rightarrow> jsnum"
  sha256 :: "buffer \<Rightarrow> buffer"
  kMaxLength :: nat
  getRandomValues :: "nat \<Rightarrow> nat \<Rightarrow> byte"
  utf8_toString :: "buffer \<Rightarrow> string"

definition MAX_SAFE_INTEGER :: nat where
  "MAX_SAFE_INTEGER = 9007199254740991"

fun ToNumber :: "runtime \<Rightarrow> jsval \<Rightarrow> jsnum" where
  "ToNumber rt JUndefined = NaN"
| "ToNumber rt JNull = Fin 0"
| "ToNumber rt (JNum x) = x"
| "ToNumber rt (JStr s) = StringToNumber rt s"

fun lt_num :: "jsnum \<Rightarrow> rat \<Rightarrow> bool" where
  "lt_num (Fin q) b = (q < b)"
| "lt_num NaN b = False"
| "lt_num PosInf b = False"
| "lt_num NegInf b = True"

text \<open>\<open>Math.floor\<close>, which the code takes of safe numbers from 1 on only.\<close>

fun Math_floor :: "jsnum \<Rightarrow> nat" where
  "Math_floor (Fin q) = nat \<lfloor>q\<rfloor>"
| "Math_floor x = 0"

section \<open>The splitter (src/lib/split.js)\<close>

fun isSafe :: "jsnum \<Rightarrow> bool" where
  "isSafe (Fin q) = (- of_nat MAX_SAFE_INTEGER \<le> q \<and> q \<le> of_nat MAX_SAFE_INTEGER)"
| "isSafe x = False"

definition isDefined :: "jsval \<Rightarrow> bool" where
  "isDefined v = (v \<noteq> JUndefined \<and> v \<noteq> JNull)"

record raw_options =
  lines :: jsval
  bytes :: jsval
  line_bytes :: jsval

record options =
  lines_n :: "nat option"
  bytes_n :: "nat option"
  line_bytes_n :: "nat option"

definition is_digit :: "char \<Rightarrow> bool" where
  "is_digit c = (c \<in> set ''0123456789'')"

definition decimal :: "string \<Rightarrow> nat" where
  "decimal ds = foldl (\<lambda>a c. 10 * a + (of_char c - 48)) 0 ds"

text \<open>
  \<open>/^(\d+)(KB|MB|K|M)$/i.exec(size)\<close>: the leading digits, at least one, and a rest that
  is one of the four units in any mix of cases.
\<close>

definition size_regex :: "string \<Rightarrow> (string \<times> string) option" where
  "size_regex s =
     (let ds = takeWhile is_digit s; u = dropWhile is_digit s
      in if ds \<noteq> [] \<and>
            u \<in> set [''KB'', ''Kb'', ''kB'', ''kb'', ''MB'', ''Mb'', ''mB'', ''mb'',
                      ''K'', ''k'', ''M'', ''m'']
         then Some (ds, u) else None)"

text \<open>The \<open>switch\<close> on the unit; a mixed-case \<open>Kb\<close> falls through to \<open>undefined\<close>.\<close>

definition unit_of :: "string \<Rightarrow> nat option" where
  "unit_of x =
     (if x = ''k'' \<or> x = ''K'' then Some 1024
      else if x = ''m'' \<or> x = ''M'' then Some 1048576
      else if x = ''kb'' \<or> x = ''KB'' then Some 1000
      else if x = ''mb'' \<or> x = ''MB'' then Some 1000000
      else None)"

text \<open>
  The block \<open>if (byBytes || byLineBytes)\<close> of \<open>checkOptions\<close>. In the shorthand branch
  the product \<open>result[1] * unit\<close> is a double: it is at most \<open>MAX_SAFE_INTEGER\<close> exactly
  when the exact product is, and is then exact, so the test is made on the exact product.
  A value that is \<open>NaN\<close> as a number and is not a string prints as \<open>NaN\<close>, which the
  pattern rejects.
\<close>

definition checkSize :: "runtime \<Rightarrow> jsval \<Rightarrow> nat outcome" where
  "checkSize rt sz =
     (if ToNumber rt sz = NaN then
        (case (case sz of JStr s \<Rightarrow> size_regex s | _ \<Rightarrow> None) of
           None \<Rightarrow> Throws (Error ''Invalid number of bytes'')
         | Some (ds, u) \<Rightarrow>
             (case unit_of u of
                None \<Rightarrow> Throws (Error ''Invalid number of bytes'')
              | Some k \<Rightarrow>
                  if decimal ds * k \<le> MAX_SAFE_INTEGER then Returns (decimal ds * k)
                  else Throws (Error ''Invalid number of bytes'')))
      else if \<not> isSafe (ToNumber rt sz) \<or> lt_num (ToNumber rt sz) 1
        then Throws (Error ''Invalid number of bytes'')
      else Returns (Math_floor (ToNumber rt sz)))"

definition checkLines :: "runtime \<Rightarrow> jsval \<Rightarrow> nat outcome" where
  "checkLines rt v =
     (if ToNumber rt v = NaN \<or> \<not> isSafe (ToNumber rt v) \<or> lt_num (ToNumber rt v) 1
        then Throws (Error ''Invalid number of lines'')
      else Returns (Math_floor (ToNumber rt v)))"

text \<open>
  \<open>checkOptions\<close> on an options object that has no \<open>prefix\<close> (the file-writing
  options are not used by this library). A property that is absent is \<open>JUndefined\<close>.
\<close>

definition checkOptions :: "runtime \<Rightarrow> raw_options \<Rightarrow> options outcome" where
  "checkOptions rt opts =
     (let byLines = isDefined (lines opts);
          byBytes = isDefined (bytes opts);
          byLineBytes = isDefined (line_bytes opts)
      in if (byLines \<and> byBytes) \<or> (byBytes \<and> byLineBytes) \<or> (byLines \<and> byLineBytes)
           then Throws (Error ''Cannot split in more than one way'')
         else if \<not> byLines \<and> \<not> byBytes \<and> \<not> byLineBytes
           then Throws (Error ''Splitting way is not specified'')
         else if byLines then
           (case checkLines rt (lines opts) of
              Returns n \<Rightarrow> Returns \<lparr>lines_n = Some n, bytes_n = None, line_bytes_n = None\<rparr>
            | Throws e \<Rightarrow> Throws e
            | Diverges \<Rightarrow> Diverges)
         else
           (case checkSize rt (if byBytes then bytes opts else line_bytes opts) of
              Returns n \<Rightarrow>
                Returns (if byBytes
                         then \<lparr>lines_n = None, bytes_n = Some n, line_bytes_n = None\<rparr>
                         else \<lparr>lines_n = None, bytes_n = None, line_bytes_n = Some n\<rparr>)
            | Throws e \<Rightarrow> Throws e
            | Diverges \<Rightarrow> Diverges))"

text \<open>\<open>buffer.slice(begin, end)\<close> for \<open>begin \<le> end\<close>, and \<open>buffer.slice(begin)\<close>.\<close>

definition slice :: "buffer \<Rightarrow> nat \<Rightarrow> nat \<Rightarrow> buffer" where
  "slice buffer begin end = take (end - begin) (drop begin buffer)"

definition LF :: byte where
  "LF = 10"

function splitByLines_loop ::
  "buffer \<Rightarrow> nat \<Rightarrow> nat \<Rightarrow> nat \<Rightarrow> nat \<Rightarrow> buffer list \<Rightarrow> buffer list" where
  "splitByLines_loop buffer lns begin index lineCount splitted =
     (if begin = length buffer then splitted
      else if length buffer < index then splitted @ [drop begin buffer]
      else if index < length buffer \<and> buffer ! index = LF then
        (if lineCount = lns
         then splitByLines_loop buffer lns (index + 1) (index + 1) 1
                (splitted @ [slice buffer begin (index + 1)])
         else splitByLines_loop buffer lns begin (index + 1) (lineCount + 1) splitted)
      else splitByLines_loop buffer lns begin (index + 1) lineCount splitted)"
  by pat_completeness auto
termination
  by (relation "measure (\<lambda>(buffer, lns, begin, index, lineCount, splitted).
        Suc (length buffer) - index)") auto

declare splitByLines_loop.simps [simp del]

definition splitByLines :: "buffer \<Rightarrow> nat \<Rightarrow> buffer list" where
  "splitByLines buffer lns = splitByLines_loop buffer lns 0 0 1 []"

text \<open>
  The loop of \<open>splitByBytes\<close>, \<open>for (begin = 0, end = size; ; begin = end, end += size)\<close>.
  With \<open>size = 0\<close> and a non-empty buffer it never leaves.
\<close>

partial_function (option) splitByBytes_loop ::
  "buffer \<Rightarrow> nat \<Rightarrow> nat \<Rightarrow> nat \<Rightarrow> buffer list \<Rightarrow> buffer list option" where
  "splitByBytes_loop buffer sz begin end splitted =
     (if begin = length buffer then Some splitted
      else if length buffer < end then Some (splitted @ [drop begin buffer])
      else splitByBytes_loop buffer sz end (end + sz)
             (splitted @ [slice buffer begin end]))"

declare splitByBytes_loop.simps [code]

definition splitByBytes :: "buffer \<Rightarrow> nat \<Rightarrow> buffer list option" where
  "splitByBytes buffer sz = splitByBytes_loop buffer sz 0 sz []"

text \<open>
  \<open>_split\<close>; the third mode splits into lines and each line by bytes, and appends the
  pieces in order. \<open>checkOptions\<close> has set one of the three sizes, so the last
  \<open>None\<close> is not reached.
\<close>

fun split_each :: "buffer list \<Rightarrow> nat \<Rightarrow> buffer list option" where
  "split_each [] sz = Some []"
| "split_each (line # rest) sz =
     (case splitByBytes line sz of
        None \<Rightarrow> None
      | Some ps \<Rightarrow> (case split_each rest sz of None \<Rightarrow> None | Some qs \<Rightarrow> Some (ps @ qs)))"

definition split_impl :: "buffer \<Rightarrow> options \<Rightarrow> buffer list option" where
  "split_impl buffer opts =
     (case lines_n opts of
        Some n \<Rightarrow> Some (splitByLines buffer n)
      | None \<Rightarrow>
          (case bytes_n opts of
             Some n \<Rightarrow> splitByBytes buffer n
           | None \<Rightarrow>
               (case line_bytes_n opts of
                  Some n \<Rightarrow> split_each (splitByLines buffer 1) n
                | None \<Rightarrow> None)))"

text \<open>
  \<open>splitSync\<close>. Without a \<open>prefix\<close>, \<open>createFilenames\<close> builds names that are not
  used and throws nothing, and no file is written.
\<close>

definition splitSync :: "runtime \<Rightarrow> buffer \<Rightarrow> raw_options \<Rightarrow> buffer list outcome" where
  "splitSync rt buffer opts =
     (case checkOptions rt opts of
        Throws e \<Rightarrow> Throws e
      | Diverges \<Rightarrow> Diverges
      | Returns o' \<Rightarrow>
          (case split_impl buffer o' of None \<Rightarrow> Diverges | Some splitted \<Rightarrow> Returns splitted))"

section \<open>The Merkle tree (lib/tree)\<close>

text \<open>
  The \<open>hasher\<close> argument is absent or another falsy value, a function, or some other
  truthy value; the \<open>leaves\<close> argument is an array of digests or not an array. A
  hasher that is a function maps the bytes it is given to a digest and reads nothing else.
\<close>

datatype hasher_arg = HFalsy | HNonCallable | HFunc "buffer \<Rightarrow> buffer"

datatype leaves_arg = NotAnArray | Array "buffer list"

record MerkleTree =
  t_hasher :: "buffer \<Rightarrow> buffer"
  t_leaves :: "buffer list"
  t_depth :: nat
  t_rows :: "buffer list list"
  t_count :: nat

function depth_loop :: "nat \<Rightarrow> nat \<Rightarrow> nat" where
  "depth_loop pow n = (if 2 ^ pow < n then depth_loop (pow + 1) n else pow)"
  by pat_completeness auto
termination
  by (relation "measure (\<lambda>(pow, n). n - 2 ^ pow)") (auto intro!: diff_less_mono2)

declare depth_loop.simps [simp del]

text \<open>\<open>depth()\<close> stores the depth it computes and returns it.\<close>

definition depth :: "MerkleTree \<Rightarrow> nat \<times> MerkleTree" where
  "depth t =
     (let t' = (if t_depth t = 0
                then t\<lparr>t_depth := depth_loop 0 (length (t_leaves t))\<rparr> else t)
      in (t_depth t', t'))"

text \<open>
  \<open>_getNodes\<close>: \<open>for (i = 0; i < leaves.length - 1; i = i + 2) nodes[i / 2] = ...\<close>.
  The index written is always the current length of \<open>nodes\<close>, so each assignment
  appends; so does the one for the remainder.
\<close>

function getNodes_loop ::
  "(buffer \<Rightarrow> buffer) \<Rightarrow> buffer list \<Rightarrow> nat \<Rightarrow> buffer list \<Rightarrow> buffer list" where
  "getNodes_loop h lvs i nodes =
     (if i + 1 < length lvs
      then getNodes_loop h lvs (i + 2) (nodes @ [h (lvs ! i @ lvs ! (i + 1))])
      else nodes)"
  by pat_completeness auto
termination
  by (relation "measure (\<lambda>(h, lvs, i, nodes). length lvs - i)") auto

declare getNodes_loop.simps [simp del]

definition getNodes :: "(buffer \<Rightarrow> buffer) \<Rightarrow> buffer list \<Rightarrow> buffer list" where
  "getNodes h lvs =
     (let remainder = length lvs mod 2;
          nodes = getNodes_loop h lvs 0 []
      in if remainder = 1 then nodes @ [lvs ! (length lvs - 1)] else nodes)"

text \<open>
  \<open>_compute\<close>: \<open>depth\<close> empty rows, the leaves as row \<open>depth\<close>, then
  \<open>for (j = depth - 1; j >= 0; j--)\<close>; \<open>compute_loop\<close> at \<open>Suc j\<close> runs the body
  for \<open>j\<close>.
\<close>

fun compute_loop ::
  "(buffer \<Rightarrow> buffer) \<Rightarrow> nat \<Rightarrow> buffer list list \<times> nat \<Rightarrow> buffer list list \<times> nat" where
  "compute_loop h 0 st = st"
| "compute_loop h (Suc j) (rs, cnt) =
     (let r = getNodes h (rs ! Suc j)
      in compute_loop h j (rs[j := r], cnt + length r))"

definition compute :: "MerkleTree \<Rightarrow> MerkleTree" where
  "compute t =
     (let (d, t1) = depth t
      in if length (t_rows t1) = 0
         then (let (rs, cnt) = compute_loop (t_hasher t1) d
                                 (replicate d [] @ [t_leaves t1], t_count t1)
               in t1\<lparr>t_rows := rs, t_count := cnt\<rparr>)
         else t1)"

definition MerkleTree_new :: "runtime \<Rightarrow> leaves_arg \<Rightarrow> hasher_arg \<Rightarrow> MerkleTree outcome" where
  "MerkleTree_new rt lvs hasher =
     (case lvs of
        NotAnArray \<Rightarrow> Throws (AssertionError ''Invalid leaves array supplied'')
      | Array ls \<Rightarrow>
          (case (case hasher of HFalsy \<Rightarrow> HFunc (sha256 rt) | h \<Rightarrow> h) of
             HFunc f \<Rightarrow>
               Returns (compute \<lparr>t_hasher = f, t_leaves = ls, t_depth = 0,
                                 t_rows = [], t_count = 0\<rparr>)
           | _ \<Rightarrow> Throws (AssertionError ''Invalid hash function supplied'')))"

text \<open>
  \<open>root()\<close> is \<open>this._rows[0][0]\<close>: \<open>undefined\<close> (\<open>None\<close>) when row 0 is empty.
\<close>

definition root :: "MerkleTree \<Rightarrow> buffer option outcome" where
  "root t =
     (case t_rows t of
        [] \<Rightarrow> Throws (TypeError ''Cannot read properties of undefined'')
      | r # _ \<Rightarrow> Returns (case r of [] \<Rightarrow> None | x # _ \<Rightarrow> Some x))"

definition nodes :: "MerkleTree \<Rightarrow> nat" where
  "nodes t = t_count t"

section \<open>Buffers of the runtime\<close>

text \<open>
  \<open>Buffer.alloc(size)\<close> throws a \<open>TypeError\<close> when \<open>size\<close> is not a number and a
  \<open>RangeError\<close> when it is negative, \<open>NaN\<close> or above the largest length; a fraction
  is cut off.
\<close>

definition Buffer_alloc :: "runtime \<Rightarrow> jsval \<Rightarrow> buffer outcome" where
  "Buffer_alloc rt sz =
     (case sz of
        JNum (Fin q) \<Rightarrow>
          if q < 0 \<or> of_nat (kMaxLength rt) < q
          then Throws (RangeError ''ERR_OUT_OF_RANGE'')
          else Returns (replicate (nat \<lfloor>q\<rfloor>) 0)
      | JNum _ \<Rightarrow> Throws (RangeError ''ERR_OUT_OF_RANGE'')
      | _ \<Rightarrow> Throws (TypeError ''ERR_INVALID_ARG_TYPE''))"

text \<open>
  \<open>buf.fill(value, offset)\<close> with a buffer as value writes the value again and again
  from \<open>offset\<close> to the end (\<open>buf.fill(value)\<close> is offset 0); an empty value cannot
  fill a region that is not empty. \<open>buf.fill(0, offset)\<close> writes zeros.
\<close>

definition fill_buffer :: "buffer \<Rightarrow> buffer \<Rightarrow> nat \<Rightarrow> buffer outcome" where
  "fill_buffer buf v offset =
     (if length buf < offset then Throws (RangeError ''ERR_BUFFER_OUT_OF_BOUNDS'')
      else if length buf \<le> offset then Returns buf
      else if v = [] then Throws (TypeError ''ERR_INVALID_ARG_VALUE'')
      else Returns (take offset buf @
                    map (\<lambda>i. v ! (i mod length v)) [0..<length buf - offset]))"

definition fill_zero :: "buffer \<Rightarrow> nat \<Rightarrow> buffer outcome" where
  "fill_zero buf offset =
     (if length buf < offset then Throws (RangeError ''ERR_BUFFER_OUT_OF_BOUNDS'')
      else Returns (take offset buf @ replicate (length buf - offset) 0))"

section \<open>The DAG (lib/dag)\<close>

record DAG_opts =
  opt_sliceIndex :: "nat option"
  opt_hashFunc :: hasher_arg

record DAG =
  shards :: "buffer list"
  leaves :: "buffer list"
  merkle :: MerkleTree
  entries :: "(buffer \<times> buffer) list"
  sliceIndex :: nat

definition DEFAULT_OPTS :: "runtime \<Rightarrow> buffer list \<Rightarrow> DAG_opts" where
  "DEFAULT_OPTS rt shs =
     \<lparr>opt_sliceIndex = Some (foldl (\<lambda>byteLength s. byteLength + length s) 0 shs),
      opt_hashFunc = HFunc (sha256 rt)\<rparr>"

text \<open>
  The constructor. \<open>shards.map\<close> throws a \<open>TypeError\<close> when its argument is not a
  function, also on an empty array. The second loop runs to \<open>this.merkle.length\<close>,
  which is \<open>undefined\<close>, so it adds nothing.
\<close>

definition DAG_new :: "runtime \<Rightarrow> buffer list \<Rightarrow> DAG_opts \<Rightarrow> DAG outcome" where
  "DAG_new rt shs opts =
     (let defaults = DEFAULT_OPTS rt shs;
          hf = (case opt_hashFunc opts of HFalsy \<Rightarrow> opt_hashFunc defaults | h \<Rightarrow> h)
      in case hf of
           HFunc f \<Rightarrow>
             (let lvs = map f shs
              in case MerkleTree_new rt (Array lvs) hf of
                   Throws e \<Rightarrow> Throws e
                 | Diverges \<Rightarrow> Diverges
                 | Returns m \<Rightarrow>
                     Returns \<lparr>shards = shs, leaves = lvs, merkle = m,
                              entries = map (\<lambda>i. (lvs ! i, shs ! i)) [0..<length shs],
                              sliceIndex = (case opt_sliceIndex opts of
                                              None \<Rightarrow> the (opt_sliceIndex defaults)
                                            | Some k \<Rightarrow> k)\<rparr>)
         | _ \<Rightarrow> Throws (TypeError ''hashFunc is not a function''))"

definition toArray :: "DAG \<Rightarrow> buffer list" where
  "toArray d = shards d"

subsection \<open>The metadata record\<close>

definition hex_digit :: "nat \<Rightarrow> char" where
  "hex_digit k = ''0123456789abcdef'' ! k"

definition toString_hex :: "buffer \<Rightarrow> string" where
  "toString_hex buf = concat (map (\<lambda>b. [hex_digit (unat b div 16), hex_digit (unat b mod 16)]) buf)"

text \<open>
  \<open>JSON.stringify\<close> of the object \<open>{n, l, r, s}\<close> (the fields \<open>meta_n\<close>,
  \<open>meta_l\<close>, \<open>meta_r\<close>, \<open>meta_s\<close>). A string is quoted with the escapes
  of JSON; a character stands for the code unit of its number. The number \<open>s\<close> is a
  length, below \<open>10^21\<close>, and prints as its decimal digits.
\<close>

record metadata =
  meta_n :: string
  meta_l :: "string list"
  meta_r :: string
  meta_s :: nat

definition dq :: string where
  "dq = [CHR 0x22]"

definition json_escape :: "char \<Rightarrow> string" where
  "json_escape c =
     (if c = CHR 0x22 then [CHR 0x5C, CHR 0x22]
      else if c = CHR 0x5C then [CHR 0x5C, CHR 0x5C]
      else if c = CHR 0x08 then [CHR 0x5C, CHR ''b'']
      else if c = CHR 0x0C then [CHR 0x5C, CHR ''f'']
      else if c = CHR 0x0A then [CHR 0x5C, CHR ''n'']
      else if c = CHR 0x0D then [CHR 0x5C, CHR ''r'']
      else if c = CHR 0x09 then [CHR 0x5C, CHR ''t'']
      else if of_char c < (32 :: nat)
        then [CHR 0x5C, CHR ''u'', CHR ''0'', CHR ''0'',
              hex_digit (of_char c div 16), hex_digit (of_char c mod 16)]
      else [c])"

definition json_string :: "string \<Rightarrow> string" where
  "json_string str = dq @ concat (map json_escape str) @ dq"

fun number_toString :: "nat \<Rightarrow> string" where
  "number_toString k =
     (if k < 10 then [hex_digit k]
      else number_toString (k div 10) @ [hex_digit (k mod 10)])"

declare number_toString.simps [simp del]

fun join_comma :: "string list \<Rightarrow> string" where
  "join_comma [] = []"
| "join_comma [x] = x"
| "join_comma (x # y # ys) = x @ '','' @ join_comma (y # ys)"

definition JSON_stringify :: "metadata \<Rightarrow> string" where
  "JSON_stringify m =
     ''{'' @ dq @ ''n'' @ dq @ '':'' @ json_string (meta_n m) @
     '','' @ dq @ ''l'' @ dq @ '':['' @ join_comma (map json_string (meta_l m)) @ '']'' @
     '','' @ dq @ ''r'' @ dq @ '':'' @ json_string (meta_r m) @
     '','' @ dq @ ''s'' @ dq @ '':'' @ number_toString (meta_s m) @ ''}''"

text \<open>
  \<open>toMetadata(name)\<close>; \<open>name || 'blob'\<close> takes the default for a missing name and for
  the empty string. The root is \<open>undefined\<close> when row 0 is empty, and
  \<open>undefined.toString\<close> throws. The call changes no field of the DAG; the DAG after the
  call is returned with the result.
\<close>

definition toMetadata :: "DAG \<Rightarrow> string option \<Rightarrow> string outcome \<times> DAG" where
  "toMetadata d name =
     (let nm = (case name of None \<Rightarrow> ''blob'' | Some x \<Rightarrow> if x = [] then ''blob'' else x);
          ls = map toString_hex (leaves d)
      in (case root (merkle d) of
            Throws e \<Rightarrow> Throws e
          | Diverges \<Rightarrow> Diverges
          | Returns None \<Rightarrow> Throws (TypeError ''Cannot read properties of undefined'')
          | Returns (Some digest) \<Rightarrow>
              Returns (JSON_stringify \<lparr>meta_n = nm, meta_l = ls,
                         meta_r = toString_hex digest, meta_s = sliceIndex d\<rparr>),
          d))"

definition DEFAULT_INPUT_SIZE :: jsval where
  "DEFAULT_INPUT_SIZE = JStr ''4M''"

text \<open>
  \<open>DAG.randomFill(numBytes)\<close>. The loop adds to \<open>offset\<close> what \<open>buf.fill\<close> returns,
  which is the buffer itself and not a count: after the first pass \<open>offset\<close> is the
  string \<open>"0"\<close> followed by the text of the buffer. The loop ends when that string is
  not a number below \<open>numBytes\<close>; otherwise the second pass draws random bytes again and
  calls \<open>buf.fill\<close> with a string as offset, which throws. The counter \<open>k\<close> is the
  number of calls of \<open>getRandomValues\<close> so far.
\<close>

definition randomFill_max :: nat where
  "randomFill_max = 65536"

definition DAG_randomFill :: "runtime \<Rightarrow> nat \<Rightarrow> nat \<Rightarrow> (buffer \<times> nat) outcome" where
  "DAG_randomFill rt k numBytes =
     (case Buffer_alloc rt (JNum (Fin (of_nat numBytes))) of
        Throws e \<Rightarrow> Throws e
      | Diverges \<Rightarrow> Diverges
      | Returns buf \<Rightarrow>
          if \<not> 0 < numBytes then Returns (buf, k)
          else
            (case fill_buffer buf (map (getRandomValues rt k) [0..<randomFill_max]) 0 of
               Throws e \<Rightarrow> Throws e
             | Diverges \<Rightarrow> Diverges
             | Returns buf' \<Rightarrow>
                 if lt_num (ToNumber rt (JStr (''0'' @ utf8_toString rt buf'))) (of_nat numBytes)
                 then Throws (TypeError ''ERR_INVALID_ARG_TYPE'')
                 else Returns (buf', k + 1)))"

text \<open>
  The function mapped over the slices in \<open>fromBuffer\<close>: allocate \<open>sliceSize\<close> bytes,
  fill them with the slice (repeated), then overwrite what follows the slice.
\<close>

definition padShard ::
  "runtime \<Rightarrow> jsval \<Rightarrow> bool \<Rightarrow> nat \<Rightarrow> buffer \<Rightarrow> (buffer \<times> nat) outcome" where
  "padShard rt sliceSize randomFill k sh =
     (case Buffer_alloc rt sliceSize of
        Throws e \<Rightarrow> Throws e
      | Diverges \<Rightarrow> Diverges
      | Returns buf0 \<Rightarrow>
          (case fill_buffer buf0 sh 0 of
             Throws e \<Rightarrow> Throws e
           | Diverges \<Rightarrow> Diverges
           | Returns bufN \<Rightarrow>
               if randomFill \<and> length bufN > length sh then
                 (case DAG_randomFill rt k (length bufN - length sh) of
                    Throws e \<Rightarrow> Throws e
                  | Diverges \<Rightarrow> Diverges
                  | Returns (rnd, k') \<Rightarrow>
                      (case fill_buffer bufN rnd (length sh) of
                         Throws e \<Rightarrow> Throws e
                       | Diverges \<Rightarrow> Diverges
                       | Returns b \<Rightarrow> Returns (b, k')))
               else
                 (case fill_zero bufN (length sh) of
                    Throws e \<Rightarrow> Throws e
                  | Diverges \<Rightarrow> Diverges
                  | Returns b \<Rightarrow> Returns (b, k))))"

fun padShards ::
  "runtime \<Rightarrow> jsval \<Rightarrow> bool \<Rightarrow> nat \<Rightarrow> buffer list \<Rightarrow> buffer list outcome" where
  "padShards rt sliceSize randomFill k [] = Returns []"
| "padShards rt sliceSize randomFill k (sh # rest) =
     (case padShard rt sliceSize randomFill k sh of
        Throws e \<Rightarrow> Throws e
      | Diverges \<Rightarrow> Diverges
      | Returns (b, k') \<Rightarrow>
          (case padShards rt sliceSize randomFill k' rest of
             Throws e \<Rightarrow> Throws e
           | Diverges \<Rightarrow> Diverges
           | Returns bs \<Rightarrow> Returns (b # bs)))"

text \<open>
  \<open>DAG.fromBuffer\<close>. A missing \<open>sliceSize\<close> is \<open>DEFAULT_INPUT_SIZE\<close>; the splitter
  gets the size as given, and so does \<open>Buffer.alloc\<close>. \<open>padLastSlice\<close> is not read.
\<close>

definition fromBuffer ::
  "runtime \<Rightarrow> buffer \<Rightarrow> jsval \<Rightarrow> hasher_arg \<Rightarrow> bool \<Rightarrow> bool \<Rightarrow> DAG outcome" where
  "fromBuffer rt buffer sliceSize0 hashFunc padLastSlice randomFill =
     (let sliceSize = (case sliceSize0 of JUndefined \<Rightarrow> DEFAULT_INPUT_SIZE | v \<Rightarrow> v)
      in case splitSync rt buffer \<lparr>lines = JUndefined, bytes = sliceSize,
                                    line_bytes = JUndefined\<rparr> of
           Throws e \<Rightarrow> Throws e
         | Diverges \<Rightarrow> Diverges
         | Returns splitted \<Rightarrow>
             (case padShards rt sliceSize randomFill 0 splitted of
                Throws e \<Rightarrow> Throws e
              | Diverges \<Rightarrow> Diverges
              | Returns shs \<Rightarrow>
                  DAG_new rt shs \<lparr>opt_sliceIndex = Some (length buffer),
                                  opt_hashFunc = hashFunc\<rparr>))"

section \<open>Auxiliary definitions for the proofs\<close>

text \<open>The pieces the loop of \<open>splitByBytes\<close> pushes, as a recursion on the rest.\<close>

function chunks :: "nat \<Rightarrow> 'a list \<Rightarrow> 'a list list" where
  "chunks k xs = (if k = 0 \<or> xs = [] then [] else take k xs # chunks k (drop k xs))"
  by pat_completeness auto
termination
  by (relation "measure (\<lambda>(k, xs). length xs)") auto

declare chunks.simps [simp del]

text \<open>
  A runtime for the examples. Its conversion of strings reads a string of decimal digits
  as that number and any other string as \<open>NaN\<close>, as the language does on the strings
  of the examples; a two-byte checksum stands for SHA-256, the byte \<open>0xAB\<close> for every
  random byte, and \<open>?\<close> for the replacement character in the text of a buffer.
\<close>

definition checksum :: "buffer \<Rightarrow> buffer" where
  "checksum buf = [of_nat (length buf), foldl (+) 0 buf]"

definition example_runtime :: runtime where
  "example_runtime =
     \<lparr>StringToNumber = (\<lambda>str. if str \<noteq> [] \<and> list_all is_digit str
                               then Fin (of_nat (decimal str)) else NaN),
      sha256 = checksum,
      kMaxLength = 4294967296,
      getRandomValues = (\<lambda>k j. 0xAB),
      utf8_toString = map (\<lambda>b. if unat b < 128 then char_of (unat b) else CHR ''?'')\<rparr>"

section \<open>Splitting by bytes\<close>

lemma chunks_Nil: "chunks k [] = []"
  by (subst chunks.simps) simp

lemma concat_chunks: "0 < k \<Longrightarrow> concat (chunks k xs) = xs"
  by (induction k xs rule: chunks.induct) (subst chunks.simps, simp)

lemma chunks_butlast: "0 < k \<Longrightarrow> p \<in> set (butlast (chunks k xs)) \<Longrightarrow> length p = k"
proof (induction k xs rule: chunks.induct)
  case (1 k xs)
  show ?case
  proof (cases "xs = []")
    case True
    with "1.prems" show ?thesis by (simp add: chunks_Nil)
  next
    case False
    have unf: "chunks k xs = take k xs # chunks k (drop k xs)"
      using False "1.prems"(1) by (subst chunks.simps) simp
    show ?thesis
    proof (cases "chunks k (drop k xs) = []")
      case True
      with unf "1.prems" show ?thesis by simp
    next
      case ne: False
      then have "drop k xs \<noteq> []" by (auto simp: chunks_Nil)
      then have len: "k < length xs" by simp
      from "1.prems"(2) unf ne
      have "p = take k xs \<or> p \<in> set (butlast (chunks k (drop k xs)))"
        by simp
      then show ?thesis
      proof
        assume "p = take k xs"
        with len show ?thesis by simp
      next
        assume "p \<in> set (butlast (chunks k (drop k xs)))"
        with "1.IH" False "1.prems"(1) show ?thesis by simp
      qed
    qed
  qed
qed

lemma chunks_last:
  "0 < k \<Longrightarrow> xs \<noteq> [] \<Longrightarrow>
     chunks k xs \<noteq> [] \<and> 1 \<le> length (last (chunks k xs)) \<and> length (last (chunks k xs)) \<le> k"
proof (induction k xs rule: chunks.induct)
  case (1 k xs)
  have unf: "chunks k xs = take k xs # chunks k (drop k xs)"
    using "1.prems" by (subst chunks.simps) simp
  show ?case
  proof (cases "drop k xs = []")
    case True
    with unf "1.prems" show ?thesis by (simp add: chunks_Nil Suc_le_eq)
  next
    case False
    with "1.IH" "1.prems" have "chunks k (drop k xs) \<noteq> [] \<and>
        1 \<le> length (last (chunks k (drop k xs))) \<and> length (last (chunks k (drop k xs))) \<le> k"
      by simp
    with unf show ?thesis by simp
  qed
qed

text \<open>The loop, started at a multiple \<open>b\<close> of the size, pushes the chunks of the rest.\<close>

lemma splitByBytes_loop_chunks:
  "0 < k \<Longrightarrow> b \<le> length buffer \<Longrightarrow>
     splitByBytes_loop buffer k b (b + k) acc = Some (acc @ chunks k (drop b buffer))"
proof (induction "length buffer - b" arbitrary: b acc rule: less_induct)
  case less
  show ?case
  proof (cases "b = length buffer")
    case True
    then show ?thesis
      by (subst splitByBytes_loop.simps) (simp add: chunks_Nil)
  next
    case False
    with less.prems have lt: "b < length buffer" by simp
    then have ne: "drop b buffer \<noteq> []" by simp
    show ?thesis
    proof (cases "length buffer < b + k")
      case True
      then have "chunks k (drop b buffer) = [drop b buffer]"
        using less.prems(1) ne
        by (subst chunks.simps) (simp add: chunks_Nil)
      with False True show ?thesis
        by (subst splitByBytes_loop.simps) simp
    next
      case le: False
      have step: "splitByBytes_loop buffer k (b + k) (b + k + k) (acc @ [slice buffer b (b + k)])
          = Some ((acc @ [slice buffer b (b + k)]) @ chunks k (drop (b + k) buffer))"
        using less.hyps [of "b + k" "acc @ [slice buffer b (b + k)]"] less.prems(1) le lt
        by simp
      have "chunks k (drop b buffer) = take k (drop b buffer) # chunks k (drop (b + k) buffer)"
        using less.prems(1) ne by (subst chunks.simps) (simp add: add.commute)
      with step False le show ?thesis
        by (subst splitByBytes_loop.simps) (simp add: slice_def)
    qed
  qed
qed

lemma splitByBytes_chunks: "0 < k \<Longrightarrow> splitByBytes buffer k = Some (chunks k buffer)"
  using splitByBytes_loop_chunks [of k 0 buffer "[]"] by (simp add: splitByBytes_def)

text \<open>
  C3. For every buffer and every positive byte count \<open>k\<close>, \<open>splitByBytes\<close> returns a
  sequence of pieces whose concatenation is the buffer; every piece but the last has
  length \<open>k\<close>, the last has a length from 1 to \<open>k\<close>; the empty buffer, and only it,
  gives the empty sequence.
\<close>

theorem splitByBytes_partition:
  "0 < k \<Longrightarrow>
     (\<exists>parts. splitByBytes buffer k = Some parts \<and>
        concat parts = buffer \<and>
        (\<forall>p \<in> set (butlast parts). length p = k) \<and>
        (parts \<noteq> [] \<longrightarrow> 1 \<le> length (last parts) \<and> length (last parts) \<le> k) \<and>
        (buffer = [] \<longleftrightarrow> parts = []))"
proof -
  assume k: "0 < k"
  show ?thesis
  proof (cases "buffer = []")
    case True
    with k show ?thesis
      by (simp add: splitByBytes_chunks chunks_Nil)
  next
    case False
    from chunks_last [OF k False] k False show ?thesis
      by (simp add: splitByBytes_chunks concat_chunks chunks_butlast)
  qed
qed

theorem splitByBytes_partition_witness:
  "(0::nat) < 2 \<and> splitByBytes [1, 2, 3, 4, 5] 2 = Some [[1, 2], [3, 4], [5]] \<and>
     (\<exists>parts. splitByBytes [1, 2, 3, 4, 5] 2 = Some parts \<and>
        concat parts = [1, 2, 3, 4, 5] \<and>
        (\<forall>p \<in> set (butlast parts). length p = 2) \<and>
        (parts \<noteq> [] \<longrightarrow> 1 \<le> length (last parts) \<and> length (last parts) \<le> 2) \<and>
        (([1, 2, 3, 4, 5] :: buffer) = [] \<longleftrightarrow> parts = []))"
proof -
  have ev: "splitByBytes [1, 2, 3, 4, 5] 2 = Some [[1, 2], [3, 4], [5]]"
    by (simp add: splitByBytes_def splitByBytes_loop.simps slice_def)
  have pos: "(0::nat) < 2" by simp
  show ?thesis
    using splitByBytes_partition [OF pos, of "[1, 2, 3, 4, 5]"] ev by simp
qed

section \<open>The rows of the tree\<close>

lemma getNodes_loop_eq:
  "getNodes_loop h lvs i nds =
     nds @ map (\<lambda>k. h (lvs ! (i + 2 * k) @ lvs ! (i + 2 * k + 1))) [0..<(length lvs - i) div 2]"
proof (induction h lvs i nds rule: getNodes_loop.induct)
  case (1 h lvs i nds)
  show ?case
  proof (cases "i + 1 < length lvs")
    case True
    define m where "m = (length lvs - (i + 2)) div 2"
    have "length lvs - i = (length lvs - (i + 2)) + 2" using True by simp
    then have "(length lvs - i) div 2 = (length lvs - (i + 2)) div 2 + 1"
      by simp
    then have m: "(length lvs - i) div 2 = Suc m" and m': "(length lvs - (i + 2)) div 2 = m"
      by (simp_all add: m_def)
    have "map (\<lambda>k. h (lvs ! (i + 2 * k) @ lvs ! (i + 2 * k + 1))) [0..<Suc m]
        = h (lvs ! i @ lvs ! (i + 1)) # map (\<lambda>k. h (lvs ! (i + 2 + 2 * k) @ lvs ! (i + 2 + 2 * k + 1))) [0..<m]"
      by (simp add: upt_conv_Cons map_Suc_upt [symmetric] del: upt_Suc)
    with 1 True m m' show ?thesis
      by (subst getNodes_loop.simps) simp
  next
    case False
    then have "(length lvs - i) div 2 = 0" by simp
    with False show ?thesis
      by (subst getNodes_loop.simps) simp
  qed
qed

lemma getNodes_eq:
  "getNodes h e =
     map (\<lambda>k. h (e ! (2 * k) @ e ! (2 * k + 1))) [0..<length e div 2] @
     (if odd (length e) then [e ! (length e - 1)] else [])"
  by (simp add: getNodes_def getNodes_loop_eq Let_def odd_iff_mod_2_eq_one)

lemma length_getNodes: "length (getNodes h e) = (length e + 1) div 2"
  by (simp add: getNodes_eq)

lemma getNodes_pair: "2 * k + 1 < length e \<Longrightarrow> getNodes h e ! k = h (e ! (2 * k) @ e ! (2 * k + 1))"
proof -
  assume "2 * k + 1 < length e"
  then have "k < length e div 2" by simp
  then show ?thesis by (simp add: getNodes_eq nth_append)
qed

lemma getNodes_carry: "odd (length e) \<Longrightarrow> getNodes h e ! (length e div 2) = e ! (length e - 1)"
  by (simp add: getNodes_eq nth_append)

lemma compute_loop_rows:
  "m < length rs \<Longrightarrow>
     length (fst (compute_loop h m (rs, cnt))) = length rs \<and>
     (\<forall>i. m \<le> i \<longrightarrow> fst (compute_loop h m (rs, cnt)) ! i = rs ! i) \<and>
     (\<forall>j < m. fst (compute_loop h m (rs, cnt)) ! j =
               getNodes h (fst (compute_loop h m (rs, cnt)) ! Suc j))"
proof (induction m arbitrary: rs cnt)
  case 0
  then show ?case by simp
next
  case (Suc m)
  let ?r = "getNodes h (rs ! Suc m)"
  let ?rs1 = "rs[m := ?r]"
  let ?res = "fst (compute_loop h m (?rs1, cnt + length ?r))"
  have unf: "compute_loop h (Suc m) (rs, cnt) = compute_loop h m (?rs1, cnt + length ?r)"
    by (simp add: Let_def)
  from Suc.prems have m: "m < length ?rs1" by simp
  from Suc.IH [OF m, of "cnt + length ?r"]
  have len: "length ?res = length ?rs1"
    and keep: "\<And>i. m \<le> i \<Longrightarrow> ?res ! i = ?rs1 ! i"
    and below: "\<And>j. j < m \<Longrightarrow> ?res ! j = getNodes h (?res ! Suc j)"
    by blast+
  have at_m: "?res ! m = getNodes h (?res ! Suc m)"
    using keep [of m] keep [of "Suc m"] Suc.prems by simp
  have "\<forall>j < Suc m. ?res ! j = getNodes h (?res ! Suc j)"
    using below at_m by (auto simp: less_Suc_eq)
  moreover have "\<forall>i. Suc m \<le> i \<longrightarrow> ?res ! i = rs ! i"
    using keep by simp
  ultimately show ?case
    unfolding unf using len by simp
qed

lemma depth_loop_bound: "n \<le> 2 ^ depth_loop p n"
proof (induction p n rule: depth_loop.induct)
  case (1 pow n)
  then show ?case
    by (subst depth_loop.simps) (simp add: not_less)
qed

lemma halving_to_one:
  "1 \<le> n \<Longrightarrow> n \<le> 2 ^ d \<Longrightarrow> ((\<lambda>x. (x + 1) div 2) ^^ d) n = (1::nat)"
proof (induction d arbitrary: n)
  case 0
  then show ?case by simp
next
  case (Suc d)
  have "1 \<le> (n + 1) div 2" using Suc.prems(1) by simp
  moreover have "(n + 1) div 2 \<le> 2 ^ d" using Suc.prems(2) by simp
  ultimately have "((\<lambda>x. (x + 1) div 2) ^^ d) ((n + 1) div 2) = 1"
    by (rule Suc.IH)
  then show ?case by (simp add: funpow_Suc_right del: funpow.simps)
qed


lemma MerkleTree_new_eq:
  "MerkleTree_new rt (Array lvs) (HFunc h) =
     Returns \<lparr>t_hasher = h, t_leaves = lvs, t_depth = depth_loop 0 (length lvs),
              t_rows = fst (compute_loop h (depth_loop 0 (length lvs))
                              (replicate (depth_loop 0 (length lvs)) [] @ [lvs], 0)),
              t_count = snd (compute_loop h (depth_loop 0 (length lvs))
                              (replicate (depth_loop 0 (length lvs)) [] @ [lvs], 0))\<rparr>"
  by (simp add: MerkleTree_new_def compute_def depth_def Let_def split: prod.splits)

lemma rows_lengths:
  assumes "\<forall>j < d. rs ! j = getNodes h (rs ! Suc j)" and "j \<le> d"
  shows "length (rs ! (d - j)) = ((\<lambda>x. (x + 1) div 2) ^^ j) (length (rs ! d))"
  using assms(2)
proof (induction j)
  case 0
  then show ?case by simp
next
  case (Suc j)
  then have "d - Suc j < d" and "Suc (d - Suc j) = d - j" by simp_all
  with assms(1) have "rs ! (d - Suc j) = getNodes h (rs ! (d - j))" by metis
  with Suc show ?case by (simp add: length_getNodes)
qed


lemma MerkleTree_new_default:
  "MerkleTree_new rt (Array lvs) HFalsy = MerkleTree_new rt (Array lvs) (HFunc (sha256 rt))"
  by (simp add: MerkleTree_new_def)

lemma root_one: "MerkleTree_new rt (Array [a]) (HFunc h) = Returns t \<Longrightarrow> root t = Returns (Some a)"
  by (auto simp: MerkleTree_new_eq depth_loop.simps root_def)

lemma root_two:
  "MerkleTree_new rt (Array [a, b]) (HFunc h) = Returns t \<Longrightarrow> root t = Returns (Some (h (a @ b)))"
  by (auto simp: MerkleTree_new_eq depth_loop.simps root_def getNodes_def getNodes_loop.simps)

lemma root_three:
  "MerkleTree_new rt (Array [a, b, c]) (HFunc h) = Returns t \<Longrightarrow>
     root t = Returns (Some (h (h (a @ b) @ c)))"
  by (auto simp: MerkleTree_new_eq depth_loop.simps root_def getNodes_def getNodes_loop.simps)

text \<open>
  C1. For a non-empty sequence of leaf digests and a callable (or defaulted) hasher
  \<open>h\<close>, the constructor returns a tree with rows 0 to \<open>depth\<close>, the leaves as
  row \<open>depth\<close>. Row \<open>j\<close> is built from row \<open>j + 1\<close> of \<open>m\<close> elements \<open>e\<close>: it
  has \<open>ceil(m / 2)\<close> elements, element \<open>k\<close> is \<open>h (e[2k] @ e[2k+1])\<close> for every pair
  with \<open>2k + 1 < m\<close>, and for odd \<open>m\<close> its last element is \<open>e[m-1]\<close> itself, not
  hashed. Row 0 has one element, the root: the leaf for one leaf, \<open>h (a @ b)\<close> for
  two, \<open>h (h (a @ b) @ c)\<close> for three.
\<close>

theorem MerkleTree_rows_pairwise:
  assumes "lvs \<noteq> []"
    and "hasher = HFunc h \<or> (hasher = HFalsy \<and> h = sha256 rt)"
  shows "\<exists>t. MerkleTree_new rt (Array lvs) hasher = Returns t \<and>
           length (t_rows t) = t_depth t + 1 \<and>
           t_rows t ! t_depth t = lvs \<and>
           (\<forall>j < t_depth t.
              length (t_rows t ! j) = (length (t_rows t ! Suc j) + 1) div 2 \<and>
              (\<forall>k. 2 * k + 1 < length (t_rows t ! Suc j) \<longrightarrow>
                   t_rows t ! j ! k =
                     h (t_rows t ! Suc j ! (2 * k) @ t_rows t ! Suc j ! (2 * k + 1))) \<and>
              (odd (length (t_rows t ! Suc j)) \<longrightarrow>
                   t_rows t ! j ! (length (t_rows t ! Suc j) div 2) =
                     t_rows t ! Suc j ! (length (t_rows t ! Suc j) - 1))) \<and>
           length (t_rows t ! 0) = 1 \<and>
           root t = Returns (Some (t_rows t ! 0 ! 0)) \<and>
           (lvs = [a] \<longrightarrow> root t = Returns (Some a)) \<and>
           (lvs = [a, b] \<longrightarrow> root t = Returns (Some (h (a @ b)))) \<and>
           (lvs = [a, b, c] \<longrightarrow> root t = Returns (Some (h (h (a @ b) @ c))))"
proof -
  define d where "d = depth_loop 0 (length lvs)"
  define res where "res = compute_loop h d (replicate d [] @ [lvs], 0)"
  define t where "t = \<lparr>t_hasher = h, t_leaves = lvs, t_depth = d,
                        t_rows = fst res, t_count = snd res\<rparr>"
  have new': "MerkleTree_new rt (Array lvs) (HFunc h) = Returns t"
    by (simp add: MerkleTree_new_eq t_def res_def d_def)
  have new: "MerkleTree_new rt (Array lvs) hasher = Returns t"
    using assms(2) new' by (auto simp: MerkleTree_new_default)
  have d_len: "d < length (replicate d [] @ [lvs])" by simp
  from compute_loop_rows [OF d_len, of h 0]
  have len: "length (fst res) = d + 1"
    and keep: "\<And>i. d \<le> i \<Longrightarrow> fst res ! i = (replicate d [] @ [lvs]) ! i"
    and below: "\<forall>j < d. fst res ! j = getNodes h (fst res ! Suc j)"
    by (simp_all add: res_def)
  have top: "fst res ! d = lvs"
    using keep [of d] by (simp add: nth_append)
  have step: "\<forall>j < d.
      length (fst res ! j) = (length (fst res ! Suc j) + 1) div 2 \<and>
      (\<forall>k. 2 * k + 1 < length (fst res ! Suc j) \<longrightarrow>
           fst res ! j ! k = h (fst res ! Suc j ! (2 * k) @ fst res ! Suc j ! (2 * k + 1))) \<and>
      (odd (length (fst res ! Suc j)) \<longrightarrow>
           fst res ! j ! (length (fst res ! Suc j) div 2) =
             fst res ! Suc j ! (length (fst res ! Suc j) - 1))"
  proof (intro allI impI)
    fix j assume "j < d"
    with below have eq: "fst res ! j = getNodes h (fst res ! Suc j)" by simp
    show "length (fst res ! j) = (length (fst res ! Suc j) + 1) div 2 \<and>
      (\<forall>k. 2 * k + 1 < length (fst res ! Suc j) \<longrightarrow>
           fst res ! j ! k = h (fst res ! Suc j ! (2 * k) @ fst res ! Suc j ! (2 * k + 1))) \<and>
      (odd (length (fst res ! Suc j)) \<longrightarrow>
           fst res ! j ! (length (fst res ! Suc j) div 2) =
             fst res ! Suc j ! (length (fst res ! Suc j) - 1))"
      unfolding eq using length_getNodes getNodes_pair getNodes_carry by blast
  qed
  have "length (fst res ! (d - d)) = ((\<lambda>x. (x + 1) div 2) ^^ d) (length (fst res ! d))"
    using below by (rule rows_lengths) simp
  moreover have "1 \<le> length lvs" using assms(1) by (simp add: Suc_le_eq)
  moreover have "length lvs \<le> 2 ^ d" unfolding d_def by (rule depth_loop_bound)
  ultimately have one: "length (fst res ! 0) = 1"
    using top halving_to_one [of "length lvs" d] by simp
  from len obtain r0 rest where rs: "fst res = r0 # rest"
    by (cases "fst res") simp_all
  from one rs obtain x where r0: "r0 = [x]"
    by (cases r0) simp_all
  have f1: "length (t_rows t) = t_depth t + 1"
    using len by (simp add: t_def)
  have f2: "t_rows t ! t_depth t = lvs"
    using top by (simp add: t_def)
  have f3: "length (t_rows t ! 0) = 1"
    using one by (simp add: t_def)
  have f4: "root t = Returns (Some (t_rows t ! 0 ! 0))"
    by (simp add: root_def t_def rs r0)
  have c1: "lvs = [a] \<longrightarrow> root t = Returns (Some a)"
    using new' root_one by blast
  have c2: "lvs = [a, b] \<longrightarrow> root t = Returns (Some (h (a @ b)))"
    using new' root_two by blast
  have c3: "lvs = [a, b, c] \<longrightarrow> root t = Returns (Some (h (h (a @ b) @ c)))"
    using new' root_three by blast
  have f5: "\<forall>j < t_depth t.
      length (t_rows t ! j) = (length (t_rows t ! Suc j) + 1) div 2 \<and>
      (\<forall>k. 2 * k + 1 < length (t_rows t ! Suc j) \<longrightarrow>
           t_rows t ! j ! k =
             h (t_rows t ! Suc j ! (2 * k) @ t_rows t ! Suc j ! (2 * k + 1))) \<and>
      (odd (length (t_rows t ! Suc j)) \<longrightarrow>
           t_rows t ! j ! (length (t_rows t ! Suc j) div 2) =
             t_rows t ! Suc j ! (length (t_rows t ! Suc j) - 1))"
    using step by (simp add: t_def)
  show ?thesis
    using new f1 f2 f5 f3 f4 c1 c2 c3 by (intro exI [of _ t] conjI) assumption+
qed

theorem MerkleTree_rows_pairwise_witness:
  "[[1], [2], [3]] \<noteq> ([] :: buffer list) \<and>
   (HFunc checksum = HFunc checksum \<or> (HFunc checksum = HFalsy \<and> checksum = sha256 example_runtime)) \<and>
   (\<exists>t. MerkleTree_new example_runtime (Array [[1], [2], [3]]) (HFunc checksum) = Returns t \<and>
        t_rows t ! t_depth t = [[1], [2], [3]] \<and>
        length (t_rows t ! 0) = 1 \<and>
        root t = Returns (Some [3, 8]))"
proof -
  have ne: "[[1], [2], [3]] \<noteq> ([] :: buffer list)" by simp
  have hf: "HFunc checksum = HFunc checksum \<or>
      (HFunc checksum = HFalsy \<and> checksum = sha256 example_runtime)" by simp
  from MerkleTree_rows_pairwise [OF ne hf, where a = "[1]" and b = "[2]" and c = "[3]"]
  obtain t where t: "MerkleTree_new example_runtime (Array [[1], [2], [3]]) (HFunc checksum) = Returns t"
    "t_rows t ! t_depth t = [[1], [2], [3]]" "length (t_rows t ! 0) = 1"
    "[[1], [2], [3]] = [[1], [2], [3 :: byte]] \<longrightarrow>
        root t = Returns (Some (checksum (checksum ([1] @ [2]) @ [3])))"
    by blast
  from t(4) have "root t = Returns (Some (checksum (checksum ([1] @ [2]) @ [3])))"
    by simp
  then have "root t = Returns (Some [3, 8])"
    by (simp add: checksum_def)
  with t(1,2,3) ne hf show ?thesis by blast
qed

section \<open>Rejected arguments\<close>

lemma floor_five_halves: "\<lfloor>5 / 2 :: rat\<rfloor> = 2"
  by (rule floor_unique) simp_all

lemma splitSync_Throws:
  "checkOptions rt opts = Throws e \<Longrightarrow> splitSync rt buffer opts = Throws e"
  by (simp add: splitSync_def)

lemma checkOptions_size:
  "\<not> isDefined (lines opts) \<Longrightarrow> isDefined (bytes opts) \<noteq> isDefined (line_bytes opts) \<Longrightarrow>
     checkOptions rt opts =
       (case checkSize rt (if isDefined (bytes opts) then bytes opts else line_bytes opts) of
          Returns k \<Rightarrow>
            Returns (if isDefined (bytes opts)
                     then \<lparr>lines_n = None, bytes_n = Some k, line_bytes_n = None\<rparr>
                     else \<lparr>lines_n = None, bytes_n = None, line_bytes_n = Some k\<rparr>)
        | Throws e \<Rightarrow> Throws e
        | Diverges \<Rightarrow> Diverges)"
  by (cases "isDefined (bytes opts)")
     (auto simp: checkOptions_def Let_def split: outcome.split)

lemma checkSize_str_Throws:
  "StringToNumber rt str = NaN \<Longrightarrow> size_regex str = None \<Longrightarrow>
     checkSize rt (JStr str) = Throws (Error ''Invalid number of bytes'')"
  by (simp add: checkSize_def)

text \<open>
  C9 (as amended). \<open>splitSync\<close> throws \<open>Cannot split in more than one way\<close> when two
  of \<open>lines\<close>, \<open>bytes\<close>, \<open>line_bytes\<close> are given and \<open>Splitting way is not
  specified\<close> when none is; it throws whatever the check of the size throws; that check
  throws \<open>Invalid number of bytes\<close> for the number \<open>NaN\<close>, for a size that as a
  number is outside the safe integers or below 1, and for a string that is neither a
  number nor a shorthand. A size that as a number lies from 1 up to the largest safe
  integer is accepted, also when it is not an integer, and is rounded down.
\<close>

theorem splitSync_failures:
  "((isDefined (lines opts) \<and> isDefined (bytes opts)) \<or>
    (isDefined (bytes opts) \<and> isDefined (line_bytes opts)) \<or>
    (isDefined (lines opts) \<and> isDefined (line_bytes opts)) \<longrightarrow>
      splitSync rt buffer opts = Throws (Error ''Cannot split in more than one way'')) \<and>
   (\<not> isDefined (lines opts) \<and> \<not> isDefined (bytes opts) \<and> \<not> isDefined (line_bytes opts) \<longrightarrow>
      splitSync rt buffer opts = Throws (Error ''Splitting way is not specified'')) \<and>
   (\<not> isDefined (lines opts) \<and> isDefined (bytes opts) \<noteq> isDefined (line_bytes opts) \<and>
    checkSize rt (if isDefined (bytes opts) then bytes opts else line_bytes opts) = Throws e \<longrightarrow>
      splitSync rt buffer opts = Throws e) \<and>
   (v = JNum NaN \<or>
    (ToNumber rt v \<noteq> NaN \<and> (\<not> isSafe (ToNumber rt v) \<or> lt_num (ToNumber rt v) 1)) \<longrightarrow>
      checkSize rt v = Throws (Error ''Invalid number of bytes'')) \<and>
   (StringToNumber rt str = NaN \<and> size_regex str = None \<longrightarrow>
      checkSize rt (JStr str) = Throws (Error ''Invalid number of bytes'')) \<and>
   (ToNumber rt w = Fin q \<and> 1 \<le> q \<and> q \<le> of_nat MAX_SAFE_INTEGER \<longrightarrow>
      checkSize rt w = Returns (nat \<lfloor>q\<rfloor>))"
proof (intro conjI impI)
  assume "(isDefined (lines opts) \<and> isDefined (bytes opts)) \<or>
    (isDefined (bytes opts) \<and> isDefined (line_bytes opts)) \<or>
    (isDefined (lines opts) \<and> isDefined (line_bytes opts))"
  then have "checkOptions rt opts = Throws (Error ''Cannot split in more than one way'')"
    by (auto simp: checkOptions_def Let_def)
  then show "splitSync rt buffer opts = Throws (Error ''Cannot split in more than one way'')"
    by (rule splitSync_Throws)
next
  assume "\<not> isDefined (lines opts) \<and> \<not> isDefined (bytes opts) \<and> \<not> isDefined (line_bytes opts)"
  then have "checkOptions rt opts = Throws (Error ''Splitting way is not specified'')"
    by (simp add: checkOptions_def Let_def)
  then show "splitSync rt buffer opts = Throws (Error ''Splitting way is not specified'')"
    by (rule splitSync_Throws)
next
  assume a: "\<not> isDefined (lines opts) \<and> isDefined (bytes opts) \<noteq> isDefined (line_bytes opts) \<and>
    checkSize rt (if isDefined (bytes opts) then bytes opts else line_bytes opts) = Throws e"
  then have "checkOptions rt opts = Throws e"
    by (cases "isDefined (bytes opts)") (auto simp: checkOptions_size)
  then show "splitSync rt buffer opts = Throws e"
    by (rule splitSync_Throws)
next
  assume "v = JNum NaN \<or>
    (ToNumber rt v \<noteq> NaN \<and> (\<not> isSafe (ToNumber rt v) \<or> lt_num (ToNumber rt v) 1))"
  then show "checkSize rt v = Throws (Error ''Invalid number of bytes'')"
    by (auto simp: checkSize_def)
next
  assume "StringToNumber rt str = NaN \<and> size_regex str = None"
  then show "checkSize rt (JStr str) = Throws (Error ''Invalid number of bytes'')"
    by (simp add: checkSize_str_Throws)
next
  assume "ToNumber rt w = Fin q \<and> 1 \<le> q \<and> q \<le> of_nat MAX_SAFE_INTEGER"
  then show "checkSize rt w = Returns (nat \<lfloor>q\<rfloor>)"
    by (simp add: checkSize_def)
qed

text \<open>
  The size \<open>2.5\<close> is not an integer and is not rejected: the buffer is split by 2.
\<close>

theorem splitSync_fraction_counterexample:
  "splitSync example_runtime [1, 2, 3, 4, 5]
     \<lparr>lines = JUndefined, bytes = JNum (Fin (5 / 2)), line_bytes = JUndefined\<rparr>
   = Returns [[1, 2], [3, 4], [5]]"
  by (simp add: splitSync_def checkOptions_def isDefined_def checkSize_def MAX_SAFE_INTEGER_def
      floor_five_halves split_impl_def splitByBytes_def splitByBytes_loop.simps slice_def)


theorem splitSync_failures_witness:
  "splitSync example_runtime [1, 2, 3]
     \<lparr>lines = JNum (Fin 1), bytes = JNum (Fin 1), line_bytes = JUndefined\<rparr>
     = Throws (Error ''Cannot split in more than one way'') \<and>
   splitSync example_runtime [1, 2, 3]
     \<lparr>lines = JUndefined, bytes = JUndefined, line_bytes = JUndefined\<rparr>
     = Throws (Error ''Splitting way is not specified'') \<and>
   lt_num (Fin 0) 1 \<and>
   checkSize example_runtime (JNum (Fin 0)) = Throws (Error ''Invalid number of bytes'') \<and>
   splitSync example_runtime [1, 2, 3]
     \<lparr>lines = JUndefined, bytes = JNum (Fin 0), line_bytes = JUndefined\<rparr>
     = Throws (Error ''Invalid number of bytes'') \<and>
   StringToNumber example_runtime ''abc'' = NaN \<and> size_regex ''abc'' = None \<and>
   checkSize example_runtime (JStr ''abc'') = Throws (Error ''Invalid number of bytes'') \<and>
   (1 :: rat) \<le> 5 / 2 \<and> (5 / 2 :: rat) \<le> of_nat MAX_SAFE_INTEGER \<and>
   checkSize example_runtime (JNum (Fin (5 / 2))) = Returns 2"
proof -
  let ?both = "\<lparr>lines = JNum (Fin 1), bytes = JNum (Fin 1), line_bytes = JUndefined\<rparr>"
  let ?none = "\<lparr>lines = JUndefined, bytes = JUndefined, line_bytes = JUndefined\<rparr>"
  let ?zero = "\<lparr>lines = JUndefined, bytes = JNum (Fin 0), line_bytes = JUndefined\<rparr>"
  have h1: "(isDefined (lines ?both) \<and> isDefined (bytes ?both)) \<or>
      (isDefined (bytes ?both) \<and> isDefined (line_bytes ?both)) \<or>
      (isDefined (lines ?both) \<and> isDefined (line_bytes ?both))"
    by (simp add: isDefined_def)
  have h2: "\<not> isDefined (lines ?none) \<and> \<not> isDefined (bytes ?none) \<and>
      \<not> isDefined (line_bytes ?none)"
    by (simp add: isDefined_def)
  have h4: "JNum (Fin 0) = JNum NaN \<or>
      (ToNumber example_runtime (JNum (Fin 0)) \<noteq> NaN \<and>
       (\<not> isSafe (ToNumber example_runtime (JNum (Fin 0))) \<or>
        lt_num (ToNumber example_runtime (JNum (Fin 0))) 1))" by simp
  have h5: "StringToNumber example_runtime ''abc'' = NaN \<and> size_regex ''abc'' = None"
    by (simp add: example_runtime_def size_regex_def is_digit_def)
  have h6: "ToNumber example_runtime (JNum (Fin (5 / 2))) = Fin (5 / 2) \<and>
      (1 :: rat) \<le> 5 / 2 \<and> (5 / 2 :: rat) \<le> of_nat MAX_SAFE_INTEGER"
    by (simp add: MAX_SAFE_INTEGER_def)
  note A = splitSync_failures [where opts = ?both and rt = example_runtime
      and buffer = "[1, 2, 3]"]
  note B = splitSync_failures [where opts = ?none and rt = example_runtime
      and buffer = "[1, 2, 3]"]
  note C = splitSync_failures [where opts = ?zero and rt = example_runtime
      and buffer = "[1, 2, 3]" and v = "JNum (Fin 0)" and str = "''abc''"
      and w = "JNum (Fin (5 / 2))" and q = "5 / 2"
      and e = "Error ''Invalid number of bytes''"]
  have c4: "checkSize example_runtime (JNum (Fin 0)) = Throws (Error ''Invalid number of bytes'')"
    using C h4 by blast
  have h3: "\<not> isDefined (lines ?zero) \<and> isDefined (bytes ?zero) \<noteq> isDefined (line_bytes ?zero) \<and>
      checkSize example_runtime
        (if isDefined (bytes ?zero) then bytes ?zero else line_bytes ?zero)
        = Throws (Error ''Invalid number of bytes'')"
    using c4 by (simp add: isDefined_def)
  have "splitSync example_runtime [1, 2, 3] ?both
      = Throws (Error ''Cannot split in more than one way'')"
    using A h1 by blast
  moreover have "splitSync example_runtime [1, 2, 3] ?none
      = Throws (Error ''Splitting way is not specified'')"
    using B h2 by blast
  moreover have "splitSync example_runtime [1, 2, 3] ?zero
      = Throws (Error ''Invalid number of bytes'')"
    using C h3 by blast
  moreover have "checkSize example_runtime (JStr ''abc'')
      = Throws (Error ''Invalid number of bytes'')"
    using C h5 by blast
  moreover have "checkSize example_runtime (JNum (Fin (5 / 2))) = Returns 2"
    using C h6 by (simp add: floor_five_halves)
  ultimately show ?thesis
    using c4 h5 h6 by simp
qed




section \<open>Padding and construction from a buffer\<close>

lemma chunks_lengths:
  "0 < k \<Longrightarrow> p \<in> set (chunks k xs) \<Longrightarrow> 1 \<le> length p \<and> length p \<le> k"
proof (induction k xs rule: chunks.induct)
  case (1 k xs)
  show ?case
  proof (cases "xs = []")
    case True
    with "1.prems" show ?thesis by (simp add: chunks_Nil)
  next
    case False
    have unf: "chunks k xs = take k xs # chunks k (drop k xs)"
      using False "1.prems"(1) by (subst chunks.simps) simp
    from "1.prems"(2) unf have "p = take k xs \<or> p \<in> set (chunks k (drop k xs))" by simp
    then show ?thesis
    proof
      assume "p = take k xs"
      with False "1.prems"(1) show ?thesis by (cases xs) (simp_all add: Suc_le_eq)
    next
      assume "p \<in> set (chunks k (drop k xs))"
      with "1.IH" False "1.prems"(1) show ?thesis by simp
    qed
  qed
qed

lemma splitSync_bytes:
  "isDefined v \<Longrightarrow>
     splitSync rt buffer \<lparr>lines = JUndefined, bytes = v, line_bytes = JUndefined\<rparr> =
       (case checkSize rt v of
          Returns k \<Rightarrow> (case splitByBytes buffer k of None \<Rightarrow> Diverges | Some ps \<Rightarrow> Returns ps)
        | Throws e \<Rightarrow> Throws e
        | Diverges \<Rightarrow> Diverges)"
  by (simp add: splitSync_def checkOptions_def isDefined_def split_impl_def Let_def
      split: outcome.split)

lemma checkSize_num_cases:
  "checkSize rt (JNum (Fin q)) =
     (if 1 \<le> q \<and> q \<le> of_nat MAX_SAFE_INTEGER then Returns (nat \<lfloor>q\<rfloor>)
      else Throws (Error ''Invalid number of bytes''))"
  by (auto simp: checkSize_def)

lemma Buffer_alloc_nat:
  "Buffer_alloc rt (JNum (Fin (of_nat k))) =
     (if k \<le> kMaxLength rt then Returns (replicate k 0)
      else Throws (RangeError ''ERR_OUT_OF_RANGE''))"
  by (auto simp: Buffer_alloc_def)

lemma map_nth_mod: "map (\<lambda>i. xs ! (i mod length xs)) [0..<length xs] = xs"
proof -
  have "map (\<lambda>i. xs ! (i mod length xs)) [0..<length xs] = map (\<lambda>i. xs ! i) [0..<length xs]"
    by (rule map_cong) simp_all
  then show ?thesis by (simp add: map_nth)
qed

lemma take_map_upt: "m \<le> k \<Longrightarrow> take m (map f [0..<k]) = map f [0..<m]"
  by (simp add: take_map)

lemma fill_buffer_whole:
  "sh \<noteq> [] \<Longrightarrow> length sh \<le> k \<Longrightarrow>
     \<exists>bufN. fill_buffer (replicate k 0) sh 0 = Returns bufN \<and> length bufN = k \<and>
            take (length sh) bufN = sh"
  by (cases "k = 0") (simp_all add: fill_buffer_def take_map_upt map_nth_mod)


lemma padShard_shape:
  assumes "padShard rt (JNum (Fin (of_nat k))) rf c sh = Returns (b, c')"
  shows "length b = k \<and> length sh \<le> k \<and> take (length sh) b = sh"
proof -
  from assms have alloc: "Buffer_alloc rt (JNum (Fin (of_nat k))) = Returns (replicate k 0)"
    by (auto simp: padShard_def Buffer_alloc_nat split: if_splits)
  from assms alloc obtain bufN where f1: "fill_buffer (replicate k 0) sh 0 = Returns bufN"
    by (auto simp: padShard_def split: outcome.splits)
  then have bufN: "length bufN = k" "k = 0 \<or> sh \<noteq> []"
    by (auto simp: fill_buffer_def split: if_splits)
  have pre: "length sh \<le> k \<Longrightarrow> take (length sh) bufN = sh"
    using f1 by (auto simp: fill_buffer_def take_map_upt map_nth_mod split: if_splits)
  show ?thesis
  proof (cases "rf \<and> length bufN > length sh")
    case True
    with assms alloc f1 obtain rnd where
      "fill_buffer bufN rnd (length sh) = Returns b"
      by (auto simp: padShard_def split: outcome.splits prod.splits)
    with True bufN have "b = take (length sh) bufN @
        map (\<lambda>i. rnd ! (i mod length rnd)) [0..<k - length sh]"
      by (auto simp: fill_buffer_def split: if_splits)
    with True bufN pre show ?thesis by simp
  next
    case False
    with assms alloc f1 have "fill_zero bufN (length sh) = Returns b"
      by (auto simp: padShard_def split: outcome.splits prod.splits)
    then have le: "length sh \<le> k" and b: "b = take (length sh) bufN @ replicate (k - length sh) 0"
      using bufN by (auto simp: fill_zero_def split: if_splits)
    with bufN pre show ?thesis by simp
  qed
qed

lemma padShard_zero:
  assumes "1 \<le> length sh" and "length sh \<le> k" and "k \<le> kMaxLength rt"
  shows "padShard rt (JNum (Fin (of_nat k))) False c sh
           = Returns (sh @ replicate (k - length sh) 0, c)"
proof -
  from assms(1) have ne: "sh \<noteq> []" by auto
  from fill_buffer_whole [OF ne assms(2)] obtain bufN where
    "fill_buffer (replicate k 0) sh 0 = Returns bufN" "length bufN = k"
    "take (length sh) bufN = sh"
    by blast
  with assms show ?thesis
    by (simp add: padShard_def Buffer_alloc_nat fill_zero_def)
qed

lemma padShard_full:
  assumes "length sh = k" and "k \<le> kMaxLength rt"
  shows "padShard rt (JNum (Fin (of_nat k))) rf c sh = Returns (sh, c)"
proof (cases "sh = []")
  case True
  with assms show ?thesis
    by (simp add: padShard_def Buffer_alloc_def fill_buffer_def fill_zero_def)
next
  case False
  from fill_buffer_whole [OF False, of k] assms(1) obtain bufN where
    "fill_buffer (replicate k 0) sh 0 = Returns bufN" "length bufN = k"
    "take (length sh) bufN = sh"
    by auto
  with assms show ?thesis
    by (simp add: padShard_def Buffer_alloc_nat fill_zero_def)
qed

lemma DAG_randomFill_Returns:
  assumes "0 < m" and "m \<le> kMaxLength rt"
    and "\<not> lt_num (StringToNumber rt (''0'' @ utf8_toString rt
            (map (\<lambda>i. getRandomValues rt c (i mod randomFill_max)) [0..<m]))) (of_nat m)"
  shows "DAG_randomFill rt c m
           = Returns (map (\<lambda>i. getRandomValues rt c (i mod randomFill_max)) [0..<m], c + 1)"
proof -
  have blk: "map (\<lambda>i. map (getRandomValues rt c) [0..<randomFill_max] !
                 (i mod length (map (getRandomValues rt c) [0..<randomFill_max]))) [0..<m]
      = map (\<lambda>i. getRandomValues rt c (i mod randomFill_max)) [0..<m]"
    by (rule map_cong) (simp_all add: randomFill_max_def)
  have ne: "map (getRandomValues rt c) [0..<randomFill_max] \<noteq> []"
    by (simp add: randomFill_max_def)
  have "fill_buffer (replicate m 0) (map (getRandomValues rt c) [0..<randomFill_max]) 0
      = Returns (map (\<lambda>i. getRandomValues rt c (i mod randomFill_max)) [0..<m])"
    using assms(1) ne blk by (simp add: fill_buffer_def)
  with assms show ?thesis
    by (simp add: DAG_randomFill_def Buffer_alloc_nat)
qed

lemma padShard_random:
  assumes "1 \<le> length sh" and "length sh < k" and "k \<le> kMaxLength rt"
    and "\<not> lt_num (StringToNumber rt (''0'' @ utf8_toString rt
            (map (\<lambda>i. getRandomValues rt c (i mod randomFill_max)) [0..<k - length sh])))
          (of_nat (k - length sh))"
  shows "padShard rt (JNum (Fin (of_nat k))) True c sh
           = Returns (sh @ map (\<lambda>i. getRandomValues rt c (i mod randomFill_max))
                              [0..<k - length sh], c + 1)"
proof -
  let ?rnd = "map (\<lambda>i. getRandomValues rt c (i mod randomFill_max)) [0..<k - length sh]"
  from assms(1) have ne: "sh \<noteq> []" by auto
  from assms(2) have le: "length sh \<le> k" by simp
  from fill_buffer_whole [OF ne le] obtain bufN where
    bufN: "fill_buffer (replicate k 0) sh 0 = Returns bufN" "length bufN = k"
    "take (length sh) bufN = sh"
    by blast
  have rf: "DAG_randomFill rt c (k - length sh) = Returns (?rnd, c + 1)"
    using assms by (intro DAG_randomFill_Returns) simp_all
  have "?rnd \<noteq> []" using assms(2) by simp
  then have "fill_buffer bufN ?rnd (length sh) = Returns (sh @ ?rnd)"
    using bufN assms(2) map_nth_mod [of ?rnd] by (simp add: fill_buffer_def)
  with bufN rf assms show ?thesis
    by (simp add: padShard_def Buffer_alloc_nat)
qed


lemma padShards_shape:
  "padShards rt (JNum (Fin (of_nat k))) rf c shs = Returns bs \<Longrightarrow>
     list_all2 (\<lambda>sh b. length b = k \<and> take (length sh) b = sh) shs bs"
proof (induction shs arbitrary: c bs)
  case Nil
  then show ?case by simp
next
  case (Cons sh rest)
  from Cons.prems obtain b c' bs' where
    p: "padShard rt (JNum (Fin (of_nat k))) rf c sh = Returns (b, c')"
    and r: "padShards rt (JNum (Fin (of_nat k))) rf c' rest = Returns bs'"
    and bs: "bs = b # bs'"
    by (auto split: outcome.splits prod.splits)
  from padShard_shape [OF p] Cons.IH [OF r] bs show ?case by simp
qed

lemma padShards_zero:
  "\<forall>sh \<in> set shs. 1 \<le> length sh \<and> length sh \<le> k \<Longrightarrow> k \<le> kMaxLength rt \<Longrightarrow>
     padShards rt (JNum (Fin (of_nat k))) False c shs
       = Returns (map (\<lambda>sh. sh @ replicate (k - length sh) 0) shs)"
  by (induction shs) (simp_all add: padShard_zero)

lemma DAG_new_Returns:
  assumes "hf = HFunc h \<or> (hf = HFalsy \<and> h = sha256 rt)"
  shows "\<exists>t. MerkleTree_new rt (Array (map h shs)) (HFunc h) = Returns t \<and>
           DAG_new rt shs \<lparr>opt_sliceIndex = si, opt_hashFunc = hf\<rparr> =
             Returns \<lparr>shards = shs, leaves = map h shs, merkle = t,
                      entries = map (\<lambda>i. (map h shs ! i, shs ! i)) [0..<length shs],
                      sliceIndex = (case si of
                          None \<Rightarrow> foldl (\<lambda>byteLength s. byteLength + length s) 0 shs
                        | Some k \<Rightarrow> k)\<rparr>"
  using assms
  by (auto simp: DAG_new_def DEFAULT_OPTS_def MerkleTree_new_eq Let_def split: option.split)

lemma fromBuffer_num:
  "fromBuffer rt buffer (JNum (Fin q)) hf pad rf =
     (if 1 \<le> q \<and> q \<le> of_nat MAX_SAFE_INTEGER then
        (case padShards rt (JNum (Fin q)) rf 0 (chunks (nat \<lfloor>q\<rfloor>) buffer) of
           Returns shs \<Rightarrow>
             DAG_new rt shs \<lparr>opt_sliceIndex = Some (length buffer), opt_hashFunc = hf\<rparr>
         | Throws e \<Rightarrow> Throws e
         | Diverges \<Rightarrow> Diverges)
      else Throws (Error ''Invalid number of bytes''))"
proof (cases "1 \<le> q \<and> q \<le> of_nat MAX_SAFE_INTEGER")
  case True
  then have "0 < nat \<lfloor>q\<rfloor>" by linarith
  then have "splitByBytes buffer (nat \<lfloor>q\<rfloor>) = Some (chunks (nat \<lfloor>q\<rfloor>) buffer)"
    by (rule splitByBytes_chunks)
  with True show ?thesis
    by (simp add: fromBuffer_def splitSync_bytes isDefined_def checkSize_num_cases)
next
  case False
  then have "checkSize rt (JNum (Fin q)) = Throws (Error ''Invalid number of bytes'')"
    by (auto simp: checkSize_num_cases)
  with False show ?thesis
    by (auto simp: fromBuffer_def splitSync_bytes isDefined_def)
qed

lemma fromBuffer_nat_Returns:
  assumes "fromBuffer rt buffer (JNum (Fin (of_nat k))) hf pad rf = Returns d"
  shows "\<forall>sh \<in> set (shards d). length sh = k"
proof -
  from assms have ok: "1 \<le> (of_nat k :: rat) \<and> (of_nat k :: rat) \<le> of_nat MAX_SAFE_INTEGER"
    by (simp add: fromBuffer_num split: if_splits)
  with assms obtain shs where
    p: "padShards rt (JNum (Fin (of_nat k))) rf 0 (chunks k buffer) = Returns shs"
    and n: "DAG_new rt shs \<lparr>opt_sliceIndex = Some (length buffer), opt_hashFunc = hf\<rparr> = Returns d"
    by (auto simp: fromBuffer_num split: outcome.splits)
  from n have "shards d = shs"
    by (auto simp: DAG_new_def Let_def split: hasher_arg.splits outcome.splits)
  moreover from padShards_shape [OF p] have "\<forall>b \<in> set shs. length b = k"
    by (auto simp: list_all2_conv_all_nth in_set_conv_nth)
  ultimately show ?thesis by simp
qed

lemma fromBuffer_zero_Returns:
  assumes "1 \<le> k" and "k \<le> MAX_SAFE_INTEGER" and "k \<le> kMaxLength rt"
    and "hf = HFunc h \<or> (hf = HFalsy \<and> h = sha256 rt)"
  shows "\<exists>d. fromBuffer rt buffer (JNum (Fin (of_nat k))) hf pad False = Returns d \<and>
           shards d = map (\<lambda>sh. sh @ replicate (k - length sh) 0) (chunks k buffer) \<and>
           leaves d = map h (shards d) \<and> sliceIndex d = length buffer"
proof -
  let ?shs = "map (\<lambda>sh. sh @ replicate (k - length sh) 0) (chunks k buffer)"
  from assms(1) have k: "0 < k" by simp
  have "\<forall>sh \<in> set (chunks k buffer). 1 \<le> length sh \<and> length sh \<le> k"
    using chunks_lengths [OF k] by blast
  then have p: "padShards rt (JNum (Fin (of_nat k))) False 0 (chunks k buffer) = Returns ?shs"
    using assms(3) by (rule padShards_zero)
  from DAG_new_Returns [OF assms(4), of ?shs "Some (length buffer)"] obtain t where
    "DAG_new rt ?shs \<lparr>opt_sliceIndex = Some (length buffer), opt_hashFunc = hf\<rparr> =
       Returns \<lparr>shards = ?shs, leaves = map h ?shs, merkle = t,
                entries = map (\<lambda>i. (map h ?shs ! i, ?shs ! i)) [0..<length ?shs],
                sliceIndex = length buffer\<rparr>"
    by auto
  with p assms(1,2) show ?thesis
    by (simp add: fromBuffer_num)
qed

lemma padShard_zero_Returns:
  assumes "padShard rt (JNum (Fin (of_nat k))) False c sh = Returns (b, c')"
  shows "b = sh @ replicate (k - length sh) 0 \<and> c' = c"
proof -
  from assms have alloc: "Buffer_alloc rt (JNum (Fin (of_nat k))) = Returns (replicate k 0)"
    by (auto simp: padShard_def Buffer_alloc_nat split: if_splits)
  from assms alloc obtain bufN where f1: "fill_buffer (replicate k 0) sh 0 = Returns bufN"
    by (auto simp: padShard_def split: outcome.splits)
  then have bufN: "length bufN = k"
    by (auto simp: fill_buffer_def split: if_splits)
  have pre: "length sh \<le> k \<Longrightarrow> take (length sh) bufN = sh"
    using f1 by (auto simp: fill_buffer_def take_map_upt map_nth_mod split: if_splits)
  from assms alloc f1 have z: "fill_zero bufN (length sh) = Returns b" and c: "c' = c"
    by (auto simp: padShard_def split: outcome.splits)
  from z bufN have "length sh \<le> k" and "b = take (length sh) bufN @ replicate (k - length sh) 0"
    by (auto simp: fill_zero_def split: if_splits)
  with pre c show ?thesis by simp
qed

lemma padShards_zero_Returns:
  "padShards rt (JNum (Fin (of_nat k))) False c shs = Returns bs \<Longrightarrow>
     bs = map (\<lambda>sh. sh @ replicate (k - length sh) 0) shs"
proof (induction shs arbitrary: c bs)
  case Nil
  then show ?case by simp
next
  case (Cons sh rest)
  from Cons.prems obtain b c' bs' where
    p: "padShard rt (JNum (Fin (of_nat k))) False c sh = Returns (b, c')"
    and r: "padShards rt (JNum (Fin (of_nat k))) False c' rest = Returns bs'"
    and bs: "bs = b # bs'"
    by (auto split: outcome.splits prod.splits)
  from padShard_zero_Returns [OF p] Cons.IH [OF r] bs show ?case by simp
qed

lemma fromBuffer_nat_slices:
  assumes "fromBuffer rt buffer (JNum (Fin (of_nat k))) hf pad rf = Returns d"
  shows "splitByBytes buffer k = Some (chunks k buffer) \<and>
         list_all2 (\<lambda>p sh. length sh = k \<and> take (length p) sh = p) (chunks k buffer) (shards d) \<and>
         (\<not> rf \<longrightarrow> shards d = map (\<lambda>p. p @ replicate (k - length p) 0) (chunks k buffer))"
proof -
  from assms have ok: "1 \<le> (of_nat k :: rat) \<and> (of_nat k :: rat) \<le> of_nat MAX_SAFE_INTEGER"
    by (simp add: fromBuffer_num split: if_splits)
  then have k: "0 < k" by simp
  from ok assms obtain shs where
    p: "padShards rt (JNum (Fin (of_nat k))) rf 0 (chunks k buffer) = Returns shs"
    and n: "DAG_new rt shs \<lparr>opt_sliceIndex = Some (length buffer), opt_hashFunc = hf\<rparr> = Returns d"
    by (auto simp: fromBuffer_num split: outcome.splits)
  from n have sh: "shards d = shs"
    by (auto simp: DAG_new_def Let_def split: hasher_arg.splits outcome.splits)
  have "\<not> rf \<longrightarrow> shs = map (\<lambda>p. p @ replicate (k - length p) 0) (chunks k buffer)"
    using p padShards_zero_Returns by auto
  with padShards_shape [OF p] sh splitByBytes_chunks [OF k] show ?thesis by simp
qed


text \<open>
  C4. For every buffer and integer shard size \<open>i\<close>, a DAG that \<open>fromBuffer\<close> returns
  owns one shard for every slice the splitter cuts from the buffer, in order: each shard
  has length \<open>i\<close> and starts with its slice, and with zero fill it is the slice followed
  by zeros. The call with the other value of \<open>padLastSlice\<close> returns the same DAG. The
  padding runs on every slice and returns a slice of full size as it is. With zero fill
  a DAG is returned for every size from 1 up to the largest safe integer and the largest
  buffer length, and every hasher that is a function or left out.
\<close>

theorem fromBuffer_shards_uniform:
  "(fromBuffer rt buffer (JNum (Fin (of_int i))) hashFunc padLastSlice randomFill = Returns d \<longrightarrow>
      (\<exists>parts. splitByBytes buffer (nat i) = Some parts \<and>
         list_all2 (\<lambda>p sh. int (length sh) = i \<and> take (length p) sh = p) parts (shards d) \<and>
         (\<not> randomFill \<longrightarrow>
            shards d = map (\<lambda>p. p @ replicate (nat i - length p) 0) parts)) \<and>
      (\<forall>sh \<in> set (shards d). int (length sh) = i) \<and>
      fromBuffer rt buffer (JNum (Fin (of_int i))) hashFunc (\<not> padLastSlice) randomFill
        = Returns d) \<and>
   (int (length sh) = i \<and> length sh \<le> kMaxLength rt \<longrightarrow>
      padShard rt (JNum (Fin (of_int i))) randomFill c sh = Returns (sh, c)) \<and>
   (1 \<le> i \<and> i \<le> int MAX_SAFE_INTEGER \<and> i \<le> int (kMaxLength rt) \<and>
    hashFunc \<noteq> HNonCallable \<longrightarrow>
      (\<exists>d' parts. splitByBytes buffer (nat i) = Some parts \<and>
         fromBuffer rt buffer (JNum (Fin (of_int i))) hashFunc padLastSlice False = Returns d' \<and>
         shards d' = map (\<lambda>p. p @ replicate (nat i - length p) 0) parts))"
proof (intro conjI impI)
  assume r: "fromBuffer rt buffer (JNum (Fin (of_int i))) hashFunc padLastSlice randomFill
      = Returns d"
  then have pos: "1 \<le> (of_int i :: rat)"
    by (simp add: fromBuffer_num split: if_splits)
  then have i: "(of_int i :: rat) = of_nat (nat i)" by simp
  from pos have i': "int (nat i) = i" by simp
  from r have sl: "splitByBytes buffer (nat i) = Some (chunks (nat i) buffer) \<and>
      list_all2 (\<lambda>p sh. length sh = nat i \<and> take (length p) sh = p)
        (chunks (nat i) buffer) (shards d) \<and>
      (\<not> randomFill \<longrightarrow>
         shards d = map (\<lambda>p. p @ replicate (nat i - length p) 0) (chunks (nat i) buffer))"
    unfolding i by (rule fromBuffer_nat_slices)
  have eq: "(\<lambda>p sh. length sh = nat i \<and> take (length p) sh = p)
      = (\<lambda>p sh. int (length sh) = i \<and> take (length p) sh = p)"
    using i' by (intro ext) auto
  from sl show "\<exists>parts. splitByBytes buffer (nat i) = Some parts \<and>
      list_all2 (\<lambda>p sh. int (length sh) = i \<and> take (length p) sh = p) parts (shards d) \<and>
      (\<not> randomFill \<longrightarrow>
         shards d = map (\<lambda>p. p @ replicate (nat i - length p) 0) parts)"
    unfolding eq by blast
  from r have "\<forall>sh \<in> set (shards d). length sh = nat i"
    unfolding i by (rule fromBuffer_nat_Returns)
  with i' show "\<forall>sh \<in> set (shards d). int (length sh) = i"
    by auto
  from r show "fromBuffer rt buffer (JNum (Fin (of_int i))) hashFunc (\<not> padLastSlice)
      randomFill = Returns d"
    by (simp add: fromBuffer_def)
next
  assume a: "int (length sh) = i \<and> length sh \<le> kMaxLength rt"
  then have i: "(of_int i :: rat) = of_nat (length sh)" by auto
  from a show "padShard rt (JNum (Fin (of_int i))) randomFill c sh = Returns (sh, c)"
    unfolding i by (intro padShard_full) simp_all
next
  assume a: "1 \<le> i \<and> i \<le> int MAX_SAFE_INTEGER \<and> i \<le> int (kMaxLength rt) \<and>
    hashFunc \<noteq> HNonCallable"
  then have i: "(of_int i :: rat) = of_nat (nat i)" by simp
  from a obtain h where h: "hashFunc = HFunc h \<or> (hashFunc = HFalsy \<and> h = sha256 rt)"
    by (cases hashFunc) auto
  from a have b: "1 \<le> nat i" "nat i \<le> MAX_SAFE_INTEGER" "nat i \<le> kMaxLength rt"
    by linarith+
  from b(1) have "splitByBytes buffer (nat i) = Some (chunks (nat i) buffer)"
    by (intro splitByBytes_chunks) simp
  with fromBuffer_zero_Returns [OF b h, of buffer padLastSlice]
  show "\<exists>d' parts. splitByBytes buffer (nat i) = Some parts \<and>
      fromBuffer rt buffer (JNum (Fin (of_int i))) hashFunc padLastSlice False = Returns d' \<and>
      shards d' = map (\<lambda>p. p @ replicate (nat i - length p) 0) parts"
    unfolding i by blast
qed

theorem fromBuffer_shards_uniform_witness:
  "(1 :: int) \<le> 2 \<and> 2 \<le> int MAX_SAFE_INTEGER \<and> 2 \<le> int (kMaxLength example_runtime) \<and>
   HFunc checksum \<noteq> HNonCallable \<and>
   splitByBytes [1, 2, 3, 4, 5] (nat 2) = Some [[1, 2], [3, 4], [5]] \<and>
   (\<exists>d. fromBuffer example_runtime [1, 2, 3, 4, 5] (JNum (Fin (of_int 2))) (HFunc checksum)
          True False = Returns d \<and>
        shards d = [[1, 2], [3, 4], [5, 0]] \<and>
        list_all2 (\<lambda>p sh. int (length sh) = 2 \<and> take (length p) sh = p)
          [[1, 2], [3, 4], [5]] (shards d) \<and>
        (\<forall>sh \<in> set (shards d). int (length sh) = 2) \<and>
        fromBuffer example_runtime [1, 2, 3, 4, 5] (JNum (Fin (of_int 2))) (HFunc checksum)
          False False = Returns d) \<and>
   int (length [7 :: byte, 8]) = 2 \<and> length [7 :: byte, 8] \<le> kMaxLength example_runtime \<and>
   padShard example_runtime (JNum (Fin (of_int 2))) True 0 [7, 8] = Returns ([7, 8], 0)"
proof -
  have h3: "(1 :: int) \<le> 2 \<and> 2 \<le> int MAX_SAFE_INTEGER \<and>
      2 \<le> int (kMaxLength example_runtime) \<and> HFunc checksum \<noteq> HNonCallable"
    by (simp add: MAX_SAFE_INTEGER_def example_runtime_def)
  have h2: "int (length [7 :: byte, 8]) = 2 \<and> length [7 :: byte, 8] \<le> kMaxLength example_runtime"
    by (simp add: example_runtime_def)
  have sp: "splitByBytes [1, 2, 3, 4, 5] (nat 2) = Some [[1, 2], [3, 4], [5]]"
    by (simp add: splitByBytes_def splitByBytes_loop.simps slice_def)
  note T = fromBuffer_shards_uniform [where rt = example_runtime and i = 2
      and buffer = "[1, 2, 3, 4, 5]" and hashFunc = "HFunc checksum" and padLastSlice = True
      and randomFill = False and sh = "[7, 8]" and c = 0]
  from T h3 obtain d parts where p: "splitByBytes [1, 2, 3, 4, 5] (nat 2) = Some parts"
    and d: "fromBuffer example_runtime [1, 2, 3, 4, 5]
      (JNum (Fin (of_int 2))) (HFunc checksum) True False = Returns d"
    and sh: "shards d = map (\<lambda>p. p @ replicate (nat 2 - length p) 0) parts"
    by blast
  from p sp have parts: "parts = [[1, 2], [3, 4], [5]]" by simp
  from sh have sh': "shards d = [[1, 2], [3, 4], [5, 0]]"
    by (simp add: parts)
  from fromBuffer_shards_uniform [where rt = example_runtime and i = 2
      and buffer = "[1, 2, 3, 4, 5]" and hashFunc = "HFunc checksum" and padLastSlice = True
      and randomFill = False and d = d] d
  have u: "(\<exists>parts. splitByBytes [1, 2, 3, 4, 5] (nat 2) = Some parts \<and>
         list_all2 (\<lambda>p sh. int (length sh) = 2 \<and> take (length p) sh = p) parts (shards d) \<and>
         (\<not> False \<longrightarrow>
            shards d = map (\<lambda>p. p @ replicate (nat 2 - length p) 0) parts)) \<and>
      (\<forall>sh \<in> set (shards d). int (length sh) = 2) \<and>
      fromBuffer example_runtime [1, 2, 3, 4, 5] (JNum (Fin (of_int 2))) (HFunc checksum)
        (\<not> True) False = Returns d"
    by blast
  then have l2: "list_all2 (\<lambda>p sh. int (length sh) = 2 \<and> take (length p) sh = p)
      [[1, 2], [3, 4], [5]] (shards d)"
    using sp by auto
  from u have rest: "(\<forall>sh \<in> set (shards d). int (length sh) = 2) \<and>
      fromBuffer example_runtime [1, 2, 3, 4, 5] (JNum (Fin (of_int 2))) (HFunc checksum)
        False False = Returns d"
    by simp
  from fromBuffer_shards_uniform [where rt = example_runtime and i = 2
      and randomFill = True and sh = "[7, 8]" and c = 0] h2
  have full: "padShard example_runtime (JNum (Fin (of_int 2))) True 0 [7, 8] = Returns ([7, 8], 0)"
    by blast
  from h3 h2 sp d sh' l2 rest full show ?thesis
    by (intro conjI exI [of _ d]) simp_all
qed


lemma DAG_randomFill_Throws:
  assumes "0 < m" and "m \<le> kMaxLength rt"
    and "lt_num (StringToNumber rt (''0'' @ utf8_toString rt
            (map (\<lambda>i. getRandomValues rt c (i mod randomFill_max)) [0..<m]))) (of_nat m)"
  shows "DAG_randomFill rt c m = Throws (TypeError ''ERR_INVALID_ARG_TYPE'')"
proof -
  have blk: "map (\<lambda>i. map (getRandomValues rt c) [0..<randomFill_max] !
                 (i mod length (map (getRandomValues rt c) [0..<randomFill_max]))) [0..<m]
      = map (\<lambda>i. getRandomValues rt c (i mod randomFill_max)) [0..<m]"
    by (rule map_cong) (simp_all add: randomFill_max_def)
  have ne: "map (getRandomValues rt c) [0..<randomFill_max] \<noteq> []"
    by (simp add: randomFill_max_def)
  have "fill_buffer (replicate m 0) (map (getRandomValues rt c) [0..<randomFill_max]) 0
      = Returns (map (\<lambda>i. getRandomValues rt c (i mod randomFill_max)) [0..<m])"
    using assms(1) ne blk by (simp add: fill_buffer_def)
  with assms show ?thesis
    by (simp add: DAG_randomFill_def Buffer_alloc_nat)
qed

lemma padShard_random_Throws:
  assumes "1 \<le> length sh" and "length sh < k" and "k \<le> kMaxLength rt"
    and "lt_num (StringToNumber rt (''0'' @ utf8_toString rt
            (map (\<lambda>i. getRandomValues rt c (i mod randomFill_max)) [0..<k - length sh])))
          (of_nat (k - length sh))"
  shows "padShard rt (JNum (Fin (of_nat k))) True c sh = Throws (TypeError ''ERR_INVALID_ARG_TYPE'')"
proof -
  from assms(1) have ne: "sh \<noteq> []" by auto
  from assms(2) have le: "length sh \<le> k" by simp
  from fill_buffer_whole [OF ne le] obtain bufN where
    bufN: "fill_buffer (replicate k 0) sh 0 = Returns bufN" "length bufN = k"
    by blast
  have "DAG_randomFill rt c (k - length sh) = Throws (TypeError ''ERR_INVALID_ARG_TYPE'')"
    using assms by (intro DAG_randomFill_Throws) simp_all
  with bufN assms show ?thesis
    by (simp add: padShard_def Buffer_alloc_nat)
qed

text \<open>
  C5 (the code contradicts it for some random bytes). A slice of length \<open>s\<close> from 1 to
  \<open>k\<close> is padded with zero fill to the slice followed by \<open>k - s\<close> zero bytes, as
  claimed. With random fill and \<open>s < k\<close> the loop of \<open>randomFill\<close> adds to \<open>offset\<close>
  the buffer that \<open>buf.fill\<close> returns: when the text of the random bytes after \<open>"0"\<close>
  reads as a number below \<open>k - s\<close>, the second pass throws a \<open>TypeError\<close> and no shard
  is returned; otherwise the padding returns the slice followed by the \<open>k - s\<close> random
  bytes. Every shard that is returned has length \<open>k\<close> and starts with the slice, and a
  full slice is returned as it is.
\<close>

theorem padShard_fill:
  "(1 \<le> length sh \<and> length sh \<le> k \<and> k \<le> kMaxLength rt \<longrightarrow>
      padShard rt (JNum (Fin (of_nat k))) False c sh
        = Returns (sh @ replicate (k - length sh) 0, c)) \<and>
   (1 \<le> length sh \<and> length sh < k \<and> k \<le> kMaxLength rt \<and>
    lt_num (StringToNumber rt (''0'' @ utf8_toString rt
          (map (\<lambda>i. getRandomValues rt c (i mod randomFill_max)) [0..<k - length sh])))
        (of_nat (k - length sh)) \<longrightarrow>
      padShard rt (JNum (Fin (of_nat k))) True c sh
        = Throws (TypeError ''ERR_INVALID_ARG_TYPE'')) \<and>
   (1 \<le> length sh \<and> length sh < k \<and> k \<le> kMaxLength rt \<and>
    \<not> lt_num (StringToNumber rt (''0'' @ utf8_toString rt
          (map (\<lambda>i. getRandomValues rt c (i mod randomFill_max)) [0..<k - length sh])))
        (of_nat (k - length sh)) \<longrightarrow>
      padShard rt (JNum (Fin (of_nat k))) True c sh
        = Returns (sh @ map (\<lambda>i. getRandomValues rt c (i mod randomFill_max))
                           [0..<k - length sh], c + 1)) \<and>
   (padShard rt (JNum (Fin (of_nat k))) True c sh = Returns (b, c') \<longrightarrow>
      length b = k \<and> take (length sh) b = sh \<and> length (drop (length sh) b) = k - length sh) \<and>
   (length sh = k \<and> k \<le> kMaxLength rt \<longrightarrow>
      padShard rt (JNum (Fin (of_nat k))) True c sh = Returns (sh, c))"
proof (intro conjI impI)
  assume "1 \<le> length sh \<and> length sh \<le> k \<and> k \<le> kMaxLength rt"
  then show "padShard rt (JNum (Fin (of_nat k))) False c sh
      = Returns (sh @ replicate (k - length sh) 0, c)"
    by (intro padShard_zero) simp_all
next
  assume "1 \<le> length sh \<and> length sh < k \<and> k \<le> kMaxLength rt \<and>
    lt_num (StringToNumber rt (''0'' @ utf8_toString rt
          (map (\<lambda>i. getRandomValues rt c (i mod randomFill_max)) [0..<k - length sh])))
        (of_nat (k - length sh))"
  then show "padShard rt (JNum (Fin (of_nat k))) True c sh
      = Throws (TypeError ''ERR_INVALID_ARG_TYPE'')"
    by (intro padShard_random_Throws) blast+
next
  assume "1 \<le> length sh \<and> length sh < k \<and> k \<le> kMaxLength rt \<and>
    \<not> lt_num (StringToNumber rt (''0'' @ utf8_toString rt
          (map (\<lambda>i. getRandomValues rt c (i mod randomFill_max)) [0..<k - length sh])))
        (of_nat (k - length sh))"
  then show "padShard rt (JNum (Fin (of_nat k))) True c sh
      = Returns (sh @ map (\<lambda>i. getRandomValues rt c (i mod randomFill_max))
                         [0..<k - length sh], c + 1)"
    by (intro padShard_random) blast+
next
  assume r: "padShard rt (JNum (Fin (of_nat k))) True c sh = Returns (b, c')"
  from padShard_shape [OF r] show "length b = k" and "take (length sh) b = sh"
    and "length (drop (length sh) b) = k - length sh"
    by simp_all
next
  assume "length sh = k \<and> k \<le> kMaxLength rt"
  then show "padShard rt (JNum (Fin (of_nat k))) True c sh = Returns (sh, c)"
    by (intro padShard_full) simp_all
qed

lemma example_random_text:
  "StringToNumber example_runtime (''0'' @ utf8_toString example_runtime
      (map (\<lambda>i. getRandomValues example_runtime 0 (i mod randomFill_max)) [0..<4 - length [5 :: byte]]))
   = NaN"
  by (simp add: example_runtime_def is_digit_def upt_rec)

lemma char_of_48: "char_of (48 :: nat) = CHR ''0''"
  by code_simp

lemma example_zero_text:
  "StringToNumber (example_runtime\<lparr>getRandomValues := (\<lambda>k j. 0x30)\<rparr>)
     (''0'' @ utf8_toString (example_runtime\<lparr>getRandomValues := (\<lambda>k j. 0x30)\<rparr>)
       (map (\<lambda>i. getRandomValues (example_runtime\<lparr>getRandomValues := (\<lambda>k j. 0x30)\<rparr>) 0
                 (i mod randomFill_max)) [0..<4 - length [5 :: byte, 6, 7]]))
   = Fin 0"
  by (simp add: example_runtime_def is_digit_def decimal_def upt_rec char_of_48)


theorem padShard_fill_witness:
  "1 \<le> length [5 :: byte] \<and> length [5 :: byte] < 4 \<and> 4 \<le> kMaxLength example_runtime \<and>
   padShard example_runtime (JNum (Fin (of_nat 4))) False 0 [5] = Returns ([5, 0, 0, 0], 0) \<and>
   padShard example_runtime (JNum (Fin (of_nat 4))) True 0 [5]
     = Returns ([5, 0xAB, 0xAB, 0xAB], 1) \<and>
   length [5 :: byte, 0xAB, 0xAB, 0xAB] = 4 \<and> take (length [5 :: byte]) [5, 0xAB, 0xAB, 0xAB] = [5 :: byte] \<and>
   length [6 :: byte, 7, 8, 9] = 4 \<and>
   padShard example_runtime (JNum (Fin (of_nat 4))) True 0 [6, 7, 8, 9] = Returns ([6, 7, 8, 9], 0) \<and>
   1 \<le> length [5 :: byte, 6, 7] \<and> length [5 :: byte, 6, 7] < 4 \<and>
   padShard (example_runtime\<lparr>getRandomValues := (\<lambda>k j. 0x30)\<rparr>) (JNum (Fin (of_nat 4))) True 0
     [5, 6, 7] = Throws (TypeError ''ERR_INVALID_ARG_TYPE'') \<and>
   fromBuffer (example_runtime\<lparr>getRandomValues := (\<lambda>k j. 0x30)\<rparr>) [5, 6, 7]
     (JNum (Fin (of_nat 4))) (HFunc checksum) False True
     = Throws (TypeError ''ERR_INVALID_ARG_TYPE'')"
proof -
  let ?rt0 = "example_runtime\<lparr>getRandomValues := (\<lambda>k j. 0x30)\<rparr>"
  have h1: "1 \<le> length [5 :: byte] \<and> length [5 :: byte] \<le> 4 \<and> 4 \<le> kMaxLength example_runtime"
    by (simp add: example_runtime_def)
  have h3: "1 \<le> length [5 :: byte] \<and> length [5 :: byte] < 4 \<and> 4 \<le> kMaxLength example_runtime \<and>
    \<not> lt_num (StringToNumber example_runtime (''0'' @ utf8_toString example_runtime
          (map (\<lambda>i. getRandomValues example_runtime 0 (i mod randomFill_max))
               [0..<4 - length [5 :: byte]])))
        (of_nat (4 - length [5 :: byte]))"
    using example_random_text by (simp add: example_runtime_def)
  have h4: "length [6 :: byte, 7, 8, 9] = 4 \<and> 4 \<le> kMaxLength example_runtime"
    by (simp add: example_runtime_def)
  have h5: "1 \<le> length [5 :: byte, 6, 7] \<and> length [5 :: byte, 6, 7] < 4 \<and> 4 \<le> kMaxLength ?rt0 \<and>
    lt_num (StringToNumber ?rt0 (''0'' @ utf8_toString ?rt0
          (map (\<lambda>i. getRandomValues ?rt0 0 (i mod randomFill_max))
               [0..<4 - length [5 :: byte, 6, 7]])))
        (of_nat (4 - length [5 :: byte, 6, 7]))"
    using example_zero_text by (simp add: example_runtime_def)
  note T = padShard_fill [where rt = example_runtime and k = 4 and c = 0 and sh = "[5]"
      and b = "[5, 0xAB, 0xAB, 0xAB]" and c' = 1]
  from T h1 have z: "padShard example_runtime (JNum (Fin (of_nat 4))) False 0 [5]
      = Returns ([5] @ replicate (4 - length [5 :: byte]) 0, 0)"
    by blast
  from T h3 have rnd: "padShard example_runtime (JNum (Fin (of_nat 4))) True 0 [5]
      = Returns ([5] @ map (\<lambda>i. getRandomValues example_runtime 0 (i mod randomFill_max))
                         [0..<4 - length [5 :: byte]], 0 + 1)"
    by blast
  have rnd': "padShard example_runtime (JNum (Fin (of_nat 4))) True 0 [5]
      = Returns ([5, 0xAB, 0xAB, 0xAB], 1)"
    using rnd by (simp add: example_runtime_def upt_rec)
  from T rnd' have shape: "length [5 :: byte, 0xAB, 0xAB, 0xAB] = 4 \<and>
      take (length [5 :: byte]) [5, 0xAB, 0xAB, 0xAB] = [5 :: byte]"
    by blast
  from padShard_fill [where rt = example_runtime and k = 4 and c = 0 and sh = "[6, 7, 8, 9]"] h4
  have full: "padShard example_runtime (JNum (Fin (of_nat 4))) True 0 [6, 7, 8, 9]
      = Returns ([6, 7, 8, 9], 0)"
    by blast
  from padShard_fill [where rt = ?rt0 and k = 4 and c = 0 and sh = "[5, 6, 7]"] h5
  have thr: "padShard ?rt0 (JNum (Fin (of_nat 4))) True 0 [5, 6, 7]
      = Throws (TypeError ''ERR_INVALID_ARG_TYPE'')"
    by blast
  have "chunks 4 [5, 6, 7 :: byte] = [[5, 6, 7]]"
    by (simp add: chunks.simps)
  with thr have fb: "fromBuffer ?rt0 [5, 6, 7] (JNum (Fin (of_nat 4))) (HFunc checksum) False True
      = Throws (TypeError ''ERR_INVALID_ARG_TYPE'')"
    by (simp add: fromBuffer_num MAX_SAFE_INTEGER_def)
  have z': "padShard example_runtime (JNum (Fin (of_nat 4))) False 0 [5] = Returns ([5, 0, 0, 0], 0)"
    using z by (simp add: numeral_eq_Suc)
  from h3 h5 z' rnd' shape full thr fb show ?thesis by simp
qed

section \<open>The empty buffer and the default size\<close>

lemma chunks_ne: "0 < k \<Longrightarrow> xs \<noteq> [] \<Longrightarrow> chunks k xs = take k xs # chunks k (drop k xs)"
  by (subst chunks.simps) simp

lemma fromBuffer_empty:
  assumes "1 \<le> k" and "k \<le> MAX_SAFE_INTEGER"
    and "hf = HFunc h \<or> (hf = HFalsy \<and> h = sha256 rt)"
  shows "fromBuffer rt [] (JNum (Fin (of_nat k))) hf pad rf =
           Returns \<lparr>shards = [], leaves = [],
                    merkle = \<lparr>t_hasher = h, t_leaves = [], t_depth = 0, t_rows = [[]],
                              t_count = 0\<rparr>,
                    entries = [], sliceIndex = 0\<rparr>"
proof -
  have "MerkleTree_new rt (Array []) (HFunc h) =
      Returns \<lparr>t_hasher = h, t_leaves = [], t_depth = 0, t_rows = [[]], t_count = 0\<rparr>"
    by (simp add: MerkleTree_new_eq depth_loop.simps)
  with DAG_new_Returns [OF assms(3), of "[]" "Some 0"]
  have "DAG_new rt [] \<lparr>opt_sliceIndex = Some 0, opt_hashFunc = hf\<rparr> =
      Returns \<lparr>shards = [], leaves = [],
               merkle = \<lparr>t_hasher = h, t_leaves = [], t_depth = 0, t_rows = [[]],
                         t_count = 0\<rparr>,
               entries = [], sliceIndex = 0\<rparr>"
    by simp
  with assms(1,2) show ?thesis
    by (simp add: fromBuffer_num chunks_Nil)
qed

text \<open>
  C10 (as amended). For the empty buffer, a shard size from 1 to the largest safe
  integer and a hasher that is a function or left out, \<open>fromBuffer\<close> does not throw:
  it returns a DAG with no shards and no leaves whose tree has the single empty row;
  \<open>root()\<close> is \<open>undefined\<close> and \<open>toMetadata\<close> throws a \<open>TypeError\<close>.
\<close>

theorem fromBuffer_empty_buffer:
  assumes "1 \<le> k" and "k \<le> MAX_SAFE_INTEGER"
    and "hashFunc = HFunc h \<or> (hashFunc = HFalsy \<and> h = sha256 rt)"
  shows "\<exists>d. fromBuffer rt [] (JNum (Fin (of_nat k))) hashFunc padLastSlice randomFill = Returns d \<and>
           shards d = [] \<and> leaves d = [] \<and> t_rows (merkle d) = [[]] \<and>
           root (merkle d) = Returns None \<and>
           fst (toMetadata d name) = Throws (TypeError ''Cannot read properties of undefined'')"
  by (simp add: fromBuffer_empty [OF assms] root_def toMetadata_def Let_def)

theorem fromBuffer_empty_buffer_witness:
  "(1 :: nat) \<le> 2 \<and> 2 \<le> MAX_SAFE_INTEGER \<and>
   (HFalsy = HFunc (sha256 example_runtime) \<or>
    (HFalsy = HFalsy \<and> sha256 example_runtime = sha256 example_runtime)) \<and>
   (\<exists>d. fromBuffer example_runtime [] (JNum (Fin (of_nat 2))) HFalsy False False = Returns d \<and>
        shards d = [] \<and> leaves d = [] \<and> t_rows (merkle d) = [[]] \<and>
        root (merkle d) = Returns None \<and>
        fst (toMetadata d None) = Throws (TypeError ''Cannot read properties of undefined''))"
proof -
  have h1: "(1 :: nat) \<le> 2" by simp
  have h2: "2 \<le> MAX_SAFE_INTEGER" by (simp add: MAX_SAFE_INTEGER_def)
  have h3: "HFalsy = HFunc (sha256 example_runtime) \<or>
      (HFalsy = HFalsy \<and> sha256 example_runtime = sha256 example_runtime)" by simp
  from fromBuffer_empty_buffer [OF h1 h2 h3, of False False None] h1 h2 h3
  show ?thesis by blast
qed

text \<open>
  The size \<open>2^53\<close> is a positive integer, and \<open>fromBuffer\<close> throws on the empty
  buffer: the splitter's check of the size comes before the split.
\<close>

theorem fromBuffer_empty_unsafe_size_counterexample:
  "fromBuffer example_runtime [] (JNum (Fin 9007199254740992)) HFalsy False False
     = Throws (Error ''Invalid number of bytes'')"
  by (simp add: fromBuffer_num MAX_SAFE_INTEGER_def)

text \<open>
  C8 (the code contradicts it). Without a shard size the splitter reads the default
  \<open>'4M'\<close> as 4194304 bytes, but \<open>Buffer.alloc\<close> gets the string \<open>'4M'\<close> itself: for
  every non-empty buffer \<open>fromBuffer\<close> throws a \<open>TypeError\<close> and constructs no DAG.
\<close>

theorem fromBuffer_default_size:
  assumes "buffer \<noteq> []" and "StringToNumber rt ''4M'' = NaN"
  shows "checkSize rt DEFAULT_INPUT_SIZE = Returns 4194304 \<and>
         fromBuffer rt buffer JUndefined hashFunc padLastSlice randomFill
           = Throws (TypeError ''ERR_INVALID_ARG_TYPE'')"
proof -
  have cs: "checkSize rt (JStr ''4M'') = Returns 4194304"
    using assms(2)
    by (simp add: checkSize_def size_regex_def is_digit_def unit_of_def decimal_def
        MAX_SAFE_INTEGER_def)
  have "splitByBytes buffer 4194304 = Some (chunks 4194304 buffer)"
    by (rule splitByBytes_chunks) simp
  moreover have "chunks 4194304 buffer = take 4194304 buffer # chunks 4194304 (drop 4194304 buffer)"
    using assms(1) by (intro chunks_ne) simp_all
  moreover have "padShard rt (JStr ''4M'') randomFill 0 (take 4194304 buffer)
      = Throws (TypeError ''ERR_INVALID_ARG_TYPE'')"
    by (simp add: padShard_def Buffer_alloc_def)
  ultimately show ?thesis
    using cs
    by (simp add: fromBuffer_def DEFAULT_INPUT_SIZE_def splitSync_bytes isDefined_def)
qed

theorem fromBuffer_default_size_witness:
  "[1 :: byte] \<noteq> [] \<and> StringToNumber example_runtime ''4M'' = NaN \<and>
   fromBuffer example_runtime [1] JUndefined HFalsy False False
     = Throws (TypeError ''ERR_INVALID_ARG_TYPE'')"
proof -
  have h1: "[1 :: byte] \<noteq> []" by simp
  have h2: "StringToNumber example_runtime ''4M'' = NaN"
    by (simp add: example_runtime_def is_digit_def)
  from fromBuffer_default_size [OF h1 h2, of HFalsy False False] h1 h2
  show ?thesis by blast
qed

section \<open>Determinism\<close>

lemma ToNumber_random_upd:
  "ToNumber (rt\<lparr>getRandomValues := g, utf8_toString := u\<rparr>) v = ToNumber rt v"
  by (cases v) simp_all

lemma checkSize_random_upd:
  "checkSize (rt\<lparr>getRandomValues := g, utf8_toString := u\<rparr>) v = checkSize rt v"
  by (simp add: checkSize_def ToNumber_random_upd cong: if_cong)

lemma checkLines_random_upd:
  "checkLines (rt\<lparr>getRandomValues := g, utf8_toString := u\<rparr>) v = checkLines rt v"
  by (simp add: checkLines_def ToNumber_random_upd cong: if_cong)

lemma splitSync_random_upd:
  "splitSync (rt\<lparr>getRandomValues := g, utf8_toString := u\<rparr>) buffer opts = splitSync rt buffer opts"
  by (simp add: splitSync_def checkOptions_def checkSize_random_upd checkLines_random_upd
      cong: if_cong)

lemma Buffer_alloc_random_upd:
  "Buffer_alloc (rt\<lparr>getRandomValues := g, utf8_toString := u\<rparr>) sz = Buffer_alloc rt sz"
  by (simp add: Buffer_alloc_def split: jsval.split jsnum.split)

lemma padShard_random_upd:
  "padShard (rt\<lparr>getRandomValues := g, utf8_toString := u\<rparr>) sz False c sh = padShard rt sz False c sh"
  by (simp add: padShard_def Buffer_alloc_random_upd split: outcome.split)

lemma padShards_random_upd:
  "padShards (rt\<lparr>getRandomValues := g, utf8_toString := u\<rparr>) sz False c shs
     = padShards rt sz False c shs"
  by (induction shs arbitrary: c)
     (simp_all add: padShard_random_upd split: outcome.split prod.split)

lemma MerkleTree_new_random_upd:
  "MerkleTree_new (rt\<lparr>getRandomValues := g, utf8_toString := u\<rparr>) lvs hf
     = MerkleTree_new rt lvs hf"
  by (cases lvs; cases hf) (simp_all add: MerkleTree_new_def)

lemma DAG_new_random_upd:
  "DAG_new (rt\<lparr>getRandomValues := g, utf8_toString := u\<rparr>) shs opts = DAG_new rt shs opts"
  by (cases "opt_hashFunc opts")
     (simp_all add: DAG_new_def DEFAULT_OPTS_def MerkleTree_new_random_upd Let_def)

text \<open>
  C2. With zero fill the outcome of \<open>fromBuffer\<close> does not depend on the random
  source (nor on the text of buffers, which only the random fill reads, nor on
  \<open>padLastSlice\<close>): two constructions from the same buffer, size and hasher, whatever
  random bytes each would draw, give the same outcome, hence the same leaves, root and
  \<open>sliceIndex\<close>. \<open>toMetadata\<close> leaves the DAG as it was, and a second call with the
  same name gives the same output.
\<close>

theorem fromBuffer_deterministic:
  "fromBuffer (rt\<lparr>getRandomValues := g, utf8_toString := u\<rparr>) buffer sliceSize hashFunc
      padLastSlice False
     = fromBuffer rt buffer sliceSize hashFunc padLastSlice' False \<and>
   snd (toMetadata d name) = d \<and>
   toMetadata (snd (toMetadata d name)) name = toMetadata d name"
  by (simp add: fromBuffer_def splitSync_random_upd padShards_random_upd DAG_new_random_upd
      toMetadata_def Let_def split: outcome.split)

lemma example_chunks: "chunks 2 [1, 2, 3, 4, 5 :: byte] = [[1, 2], [3, 4], [5]]"
  by (simp add: chunks.simps)

theorem fromBuffer_deterministic_witness:
  "\<exists>d. fromBuffer (example_runtime\<lparr>getRandomValues := (\<lambda>k j. 0x11), utf8_toString := (\<lambda>b. [])\<rparr>)
          [1, 2, 3, 4, 5] (JNum (Fin (of_nat 2))) (HFunc checksum) False False = Returns d \<and>
       fromBuffer example_runtime [1, 2, 3, 4, 5] (JNum (Fin (of_nat 2))) (HFunc checksum) True False
         = Returns d \<and>
       shards d = [[1, 2], [3, 4], [5, 0]] \<and> leaves d = [[2, 3], [2, 7], [2, 5]] \<and>
       sliceIndex d = 5 \<and>
       toMetadata (snd (toMetadata d None)) None = toMetadata d None"
proof -
  have "(1 :: nat) \<le> 2" "2 \<le> MAX_SAFE_INTEGER" "2 \<le> kMaxLength example_runtime"
    "HFunc checksum = HFunc checksum \<or> (HFunc checksum = HFalsy \<and> checksum = sha256 example_runtime)"
    by (simp_all add: MAX_SAFE_INTEGER_def example_runtime_def)
  from fromBuffer_zero_Returns [OF this, of "[1, 2, 3, 4, 5]" True]
  obtain d where d: "fromBuffer example_runtime [1, 2, 3, 4, 5] (JNum (Fin (of_nat 2)))
        (HFunc checksum) True False = Returns d"
    and sh: "shards d = map (\<lambda>sh. sh @ replicate (2 - length sh) 0) (chunks 2 [1, 2, 3, 4, 5])"
    and lv: "leaves d = map checksum (shards d)" and si: "sliceIndex d = length [1, 2, 3, 4, 5 :: byte]"
    by blast
  from sh have sh': "shards d = [[1, 2], [3, 4], [5, 0]]"
    by (simp add: example_chunks)
  from lv sh' have lv': "leaves d = [[2, 3], [2, 7], [2, 5]]"
    by (simp add: checksum_def)
  note T = fromBuffer_deterministic [where rt = example_runtime and g = "\<lambda>k j. 0x11"
      and u = "\<lambda>b. []" and buffer = "[1, 2, 3, 4, 5]" and sliceSize = "JNum (Fin (of_nat 2))"
      and hashFunc = "HFunc checksum" and padLastSlice = False and padLastSlice' = True
      and d = d and name = None]
  from T d have "fromBuffer (example_runtime\<lparr>getRandomValues := (\<lambda>k j. 0x11),
        utf8_toString := (\<lambda>b. [])\<rparr>)
      [1, 2, 3, 4, 5] (JNum (Fin (of_nat 2))) (HFunc checksum) False False = Returns d"
    by simp
  moreover from T have "toMetadata (snd (toMetadata d None)) None = toMetadata d None"
    by blast
  ultimately show ?thesis
    using d sh' lv' si by (intro exI [of _ d]) simp
qed

section \<open>The metadata record\<close>

lemma foldl_length_sum:
  "foldl (\<lambda>byteLength s. byteLength + length s) a shs = a + sum_list (map length shs)"
  by (induction shs arbitrary: a) simp_all

lemma MerkleTree_new_root:
  assumes "lvs \<noteq> []" and "MerkleTree_new rt (Array lvs) (HFunc h) = Returns t"
  shows "\<exists>x. root t = Returns (Some x)"
proof -
  define d where "d = depth_loop 0 (length lvs)"
  define res where "res = compute_loop h d (replicate d [] @ [lvs], 0)"
  from assms(2) have rows: "t_rows t = fst res"
    by (auto simp: MerkleTree_new_eq res_def d_def)
  have d_len: "d < length (replicate d [] @ [lvs])" by simp
  from compute_loop_rows [OF d_len, of h 0]
  have len: "length (fst res) = d + 1"
    and keep: "\<And>i. d \<le> i \<Longrightarrow> fst res ! i = (replicate d [] @ [lvs]) ! i"
    and below: "\<forall>j < d. fst res ! j = getNodes h (fst res ! Suc j)"
    by (simp_all add: res_def)
  have top: "fst res ! d = lvs"
    using keep [of d] by (simp add: nth_append)
  have "length (fst res ! (d - d)) = ((\<lambda>x. (x + 1) div 2) ^^ d) (length (fst res ! d))"
    using below by (rule rows_lengths) simp
  moreover have "1 \<le> length lvs" using assms(1) by (simp add: Suc_le_eq)
  moreover have "length lvs \<le> 2 ^ d" unfolding d_def by (rule depth_loop_bound)
  ultimately have one: "length (fst res ! 0) = 1"
    using top halving_to_one [of "length lvs" d] by simp
  from len obtain r0 rest where rs: "fst res = r0 # rest"
    by (cases "fst res") simp_all
  from one rs obtain x where "r0 = [x]"
    by (cases r0) simp_all
  with rs rows show ?thesis
    by (simp add: root_def)
qed

lemma DAG_new_sliceIndex:
  "DAG_new rt shs \<lparr>opt_sliceIndex = Some k, opt_hashFunc = hf\<rparr> = Returns d \<Longrightarrow>
     sliceIndex d = k"
  by (auto simp: DAG_new_def Let_def split: hasher_arg.splits outcome.splits)

lemma fromBuffer_sliceIndex:
  assumes "fromBuffer rt buffer sz hf pad rf = Returns d"
  shows "sliceIndex d = length buffer"
proof -
  from assms obtain shs where
    "DAG_new rt shs \<lparr>opt_sliceIndex = Some (length buffer), opt_hashFunc = hf\<rparr> = Returns d"
    by (auto simp: fromBuffer_def Let_def split: outcome.splits)
  then show ?thesis by (rule DAG_new_sliceIndex)
qed

text \<open>
  C6 (as amended). For a DAG constructed from at least one shard with hasher \<open>h\<close>,
  \<open>toMetadata(name)\<close> returns the serialization of the record with exactly the keys
  \<open>n\<close>, \<open>l\<close>, \<open>r\<close>, \<open>s\<close>: \<open>n\<close> is the name, or \<open>blob\<close> when the name is
  missing or empty; \<open>l\<close> is the lowercase hex of the digest of every shard, in order;
  \<open>r\<close> is the lowercase hex of the root; \<open>s\<close> is \<open>sliceIndex\<close>, which is the
  option supplied or else the sum of the shard lengths, and which \<open>fromBuffer\<close> sets to
  the length of the buffer.
\<close>

theorem toMetadata_record:
  assumes "DAG_new rt shs \<lparr>opt_sliceIndex = si, opt_hashFunc = hashFunc\<rparr> = Returns d"
    and "shs \<noteq> []"
    and "hashFunc = HFunc h \<or> (hashFunc = HFalsy \<and> h = sha256 rt)"
  shows "\<exists>digest. root (merkle d) = Returns (Some digest) \<and>
           toMetadata d name =
             (Returns (JSON_stringify
                \<lparr>meta_n = (case name of None \<Rightarrow> ''blob''
                            | Some x \<Rightarrow> if x = [] then ''blob'' else x),
                 meta_l = map (\<lambda>sh. toString_hex (h sh)) shs,
                 meta_r = toString_hex digest,
                 meta_s = (case si of None \<Rightarrow> sum_list (map length shs) | Some k \<Rightarrow> k)\<rparr>), d) \<and>
           (\<forall>buffer sliceSize pad rf.
              fromBuffer rt buffer sliceSize hashFunc pad rf = Returns d \<longrightarrow>
                sliceIndex d = length buffer)"
proof -
  from DAG_new_Returns [OF assms(3), of shs si] assms(1) obtain t where
    t: "MerkleTree_new rt (Array (map h shs)) (HFunc h) = Returns t"
    and d: "d = \<lparr>shards = shs, leaves = map h shs, merkle = t,
                 entries = map (\<lambda>i. (map h shs ! i, shs ! i)) [0..<length shs],
                 sliceIndex = (case si of
                     None \<Rightarrow> foldl (\<lambda>byteLength s. byteLength + length s) 0 shs
                   | Some k \<Rightarrow> k)\<rparr>"
    by auto
  from assms(2) have "map h shs \<noteq> []" by simp
  from MerkleTree_new_root [OF this t] obtain x where x: "root t = Returns (Some x)"
    by blast
  have meta: "toMetadata d name =
      (Returns (JSON_stringify
         \<lparr>meta_n = (case name of None \<Rightarrow> ''blob''
                     | Some x \<Rightarrow> if x = [] then ''blob'' else x),
          meta_l = map (\<lambda>sh. toString_hex (h sh)) shs,
          meta_r = toString_hex x,
          meta_s = (case si of None \<Rightarrow> sum_list (map length shs) | Some k \<Rightarrow> k)\<rparr>), d)"
    using x by (simp add: toMetadata_def d foldl_length_sum comp_def split: option.split)
  have fb: "\<forall>buffer sliceSize pad rf.
      fromBuffer rt buffer sliceSize hashFunc pad rf = Returns d \<longrightarrow>
        sliceIndex d = length buffer"
    using fromBuffer_sliceIndex by blast
  from x meta fb show ?thesis
    by (simp add: d)
qed


theorem toMetadata_record_witness:
  "[[1, 2], [3, 4], [5, 0]] \<noteq> ([] :: buffer list) \<and>
   (HFunc checksum = HFunc checksum \<or>
    (HFunc checksum = HFalsy \<and> checksum = sha256 example_runtime)) \<and>
   (\<exists>d. DAG_new example_runtime [[1, 2], [3, 4], [5, 0]]
          \<lparr>opt_sliceIndex = None, opt_hashFunc = HFunc checksum\<rparr> = Returns d \<and>
        root (merkle d) = Returns (Some [4, 25]) \<and>
        toMetadata d (Some ''f'') =
          (Returns (''{'' @ dq @ ''n'' @ dq @ '':'' @ dq @ ''f'' @ dq @
                    '','' @ dq @ ''l'' @ dq @ '':['' @ dq @ ''0203'' @ dq @ '','' @
                      dq @ ''0207'' @ dq @ '','' @ dq @ ''0205'' @ dq @ '']'' @
                    '','' @ dq @ ''r'' @ dq @ '':'' @ dq @ ''0419'' @ dq @
                    '','' @ dq @ ''s'' @ dq @ '':6}''), d))"
proof -
  let ?shs = "[[1, 2], [3, 4], [5, 0]] :: buffer list"
  have ne: "?shs \<noteq> []" by simp
  have hf: "HFunc checksum = HFunc checksum \<or>
      (HFunc checksum = HFalsy \<and> checksum = sha256 example_runtime)" by simp
  from DAG_new_Returns [OF hf, of ?shs None] obtain t d where
    t: "MerkleTree_new example_runtime (Array (map checksum ?shs)) (HFunc checksum) = Returns t"
    and d: "DAG_new example_runtime ?shs \<lparr>opt_sliceIndex = None, opt_hashFunc = HFunc checksum\<rparr>
        = Returns d"
    and m: "merkle d = t"
    by auto
  have "map checksum ?shs = [[2, 3], [2, 7], [2, 5]]"
    by (simp add: checksum_def)
  with t have "root t = Returns (Some (checksum (checksum ([2, 3] @ [2, 7]) @ [2, 5])))"
    by (simp add: root_three)
  then have rt: "root (merkle d) = Returns (Some [4, 25])"
    by (simp add: m checksum_def)
  from toMetadata_record [OF d ne hf, of "Some ''f''"] rt
  have "toMetadata d (Some ''f'') =
      (Returns (JSON_stringify
         \<lparr>meta_n = ''f'', meta_l = map (\<lambda>sh. toString_hex (checksum sh)) ?shs,
          meta_r = toString_hex [4, 25], meta_s = sum_list (map length ?shs)\<rparr>), d)"
    by auto
  then have "toMetadata d (Some ''f'') =
      (Returns (''{'' @ dq @ ''n'' @ dq @ '':'' @ dq @ ''f'' @ dq @
                '','' @ dq @ ''l'' @ dq @ '':['' @ dq @ ''0203'' @ dq @ '','' @
                  dq @ ''0207'' @ dq @ '','' @ dq @ ''0205'' @ dq @ '']'' @
                '','' @ dq @ ''r'' @ dq @ '':'' @ dq @ ''0419'' @ dq @
                '','' @ dq @ ''s'' @ dq @ '':6}''), d)"
    by (simp add: JSON_stringify_def json_string_def json_escape_def toString_hex_def
        hex_digit_def checksum_def number_toString.simps dq_def)
  with d rt ne hf show ?thesis by blast
qed

text \<open>
  The DAG constructed from no shards is a DAG, and \<open>toMetadata\<close> throws on it.
\<close>

theorem toMetadata_empty_counterexample:
  "DAG_new example_runtime [] \<lparr>opt_sliceIndex = None, opt_hashFunc = HFalsy\<rparr> =
     Returns \<lparr>shards = [], leaves = [],
              merkle = \<lparr>t_hasher = checksum, t_leaves = [], t_depth = 0, t_rows = [[]],
                        t_count = 0\<rparr>,
              entries = [], sliceIndex = 0\<rparr> \<and>
   fst (toMetadata
          \<lparr>shards = [], leaves = [],
           merkle = \<lparr>t_hasher = checksum, t_leaves = [], t_depth = 0, t_rows = [[]],
                     t_count = 0\<rparr>,
           entries = [], sliceIndex = 0\<rparr> None)
     = Throws (TypeError ''Cannot read properties of undefined'')"
  by (simp add: DAG_new_def DEFAULT_OPTS_def MerkleTree_new_eq depth_loop.simps
      toMetadata_def root_def example_runtime_def Let_def)

end
